theory Spec2Isabelle
  imports Complex_Main "HOL-Library.Multiset"
begin

section \<open>The Gauntlet session engine\<close>

text \<open>
  A shallow embedding of the Gauntlet component (the quiz session engine): queue
  generation, the no-immediate-repeat passes, \<open>handleStart\<close>, \<open>recordAnswerTime\<close>,
  \<open>submitAnswer\<close>, \<open>advanceToNextQuestion\<close> and \<open>endGame\<close>.

  Modelling decisions.
  \<^item> React state is a record. An event handler reads the values of the last render (its
    closure) and queues updates; the model passes both the closure state and the state
    with the queued updates applied.
  \<^item> Every call of \<open>random.integer\<close> takes its entropy as an argument, every call of
    \<open>Date.now\<close> its clock reading.
  \<^item> \<open>endGame\<close> is asynchronous: it stores the result, awaits \<open>saveSession\<close>, and only then
    sets the phase. The model splits it there. \<open>endGame\<close> is the part that runs inside the
    answering handler and counts the save as pending; \<open>saveSessionResolved\<close> is the
    continuation, an event of its own. \<open>saveSession\<close> itself is declared elsewhere; only
    the moment it resolves matters here.
  \<^item> \<open>DIFFICULTY_CONFIG\<close> is declared outside the component; its entry for the chosen
    difficulty (starting lives, whether lives regenerate) is a field of the configuration.
  \<^item> Sounds, the typed answer, the option list and the feedback flags are not modelled:
    no transition reads them.
\<close>

subsection \<open>Items and queue entries\<close>

text \<open>An item is a JavaScript value: an object (its own properties, values as
  \<open>String\<close> prints them) or a primitive (as \<open>String\<close> prints it).\<close>

datatype item = Obj "(string \<times> string) list" | Prim string

fun getQuestionItemId :: "item \<Rightarrow> string" where
  "getQuestionItemId (Obj ps) =
     (case map_of ps ''kana'' of Some v \<Rightarrow> v | None \<Rightarrow>
      (case map_of ps ''kanjiChar'' of Some v \<Rightarrow> v | None \<Rightarrow>
       (case map_of ps ''word'' of Some v \<Rightarrow> v | None \<Rightarrow>
        (case map_of ps ''id'' of Some v \<Rightarrow> v | None \<Rightarrow> ''[object Object]''))))"
| "getQuestionItemId (Prim s) = s"

record question =
  item :: item
  index :: nat
  repetitionNumber :: nat

definition qid :: "question \<Rightarrow> string" where
  "qid q = getQuestionItemId (item q)"

subsection \<open>Numbers\<close>

text \<open>\<open>random.integer(lo, hi)\<close> returns an integer of the closed range; \<open>r\<close> is the
  entropy of the call.\<close>

definition random_integer :: "nat \<Rightarrow> nat \<Rightarrow> nat \<Rightarrow> nat" where
  "random_integer r lo hi = lo + r mod (hi - lo + 1)"

text \<open>The result of a JavaScript division of two integers: a finite quotient (its
  rounding to a double is not modelled), an infinity or \<open>NaN\<close>.\<close>

datatype jsnum = Fin rat | Infinite | NaN

definition js_div :: "int \<Rightarrow> int \<Rightarrow> jsnum" where
  "js_div a b = (if b = 0 then (if a = 0 then NaN else Infinite)
                 else Fin (of_int a / of_int b))"

text \<open>\<open>Math.max(5, Math.min(20, Math.ceil(totalQuestions * 0.1)))\<close>. The product is a
  double; for a multiple of ten it is the exact tenth, and between two multiples of ten
  it lies strictly between the two integers, so the ceiling is the integer one.\<close>

definition calculateRegenThreshold :: "nat \<Rightarrow> nat" where
  "calculateRegenThreshold totalQuestions = max 5 (min 20 ((totalQuestions + 9) div 10))"

subsection \<open>Queue generation\<close>

definition swap :: "'a list \<Rightarrow> nat \<Rightarrow> nat \<Rightarrow> 'a list" where
  "swap q a b = q[a := q ! b, b := q ! a]"

text \<open>The inner search loops: the first position from \<open>j\<close> on whose entry has an
  identity other than \<open>cid\<close>; the list is the queue from position \<open>j\<close>.\<close>

fun findSwapIndex :: "string \<Rightarrow> question list \<Rightarrow> nat \<Rightarrow> nat option" where
  "findSwapIndex cid [] j = None"
| "findSwapIndex cid (x # xs) j =
     (if qid x \<noteq> cid then Some j else findSwapIndex cid xs (Suc j))"

function stabilizeLoop :: "nat \<Rightarrow> question list \<Rightarrow> question list" where
  "stabilizeLoop i queue =
     (if i + 1 < length queue then
        (if qid (queue ! i) \<noteq> qid (queue ! (i + 1)) then stabilizeLoop (i + 1) queue
         else
           (case findSwapIndex (qid (queue ! i)) (drop (i + 2) queue) (i + 2) of
              None \<Rightarrow> stabilizeLoop (i + 1) queue
            | Some swapIndex \<Rightarrow> stabilizeLoop (i + 1) (swap queue (i + 1) swapIndex)))
      else queue)"
  by pat_completeness auto
termination
  by (relation "measure (\<lambda>(i, queue). length queue - i)") (auto simp: swap_def)

definition stabilizeQueueNoImmediateRepeats :: "question list \<Rightarrow> question list" where
  "stabilizeQueueNoImmediateRepeats queue = stabilizeLoop 0 queue"

text \<open>The Fisher-Yates loop, \<open>i\<close> running from the last position down to 1; \<open>rnd i\<close> is
  the entropy of the draw made at \<open>i\<close>.\<close>

fun fisherYates :: "(nat \<Rightarrow> nat) \<Rightarrow> nat \<Rightarrow> 'a list \<Rightarrow> 'a list" where
  "fisherYates rnd 0 queue = queue"
| "fisherYates rnd (Suc n) queue =
     fisherYates rnd n (swap queue (Suc n) (random_integer (rnd (Suc n)) 0 (Suc n)))"

definition crossProduct :: "item list \<Rightarrow> nat \<Rightarrow> question list" where
  "crossProduct its reps =
     concat (map (\<lambda>it. map (\<lambda>rep. \<lparr>item = it, index = 0, repetitionNumber = rep\<rparr>)
                            [1 ..< Suc reps]) its)"

definition setIndices :: "question list \<Rightarrow> question list" where
  "setIndices queue = map (\<lambda>(i, q). q\<lparr>index := i\<rparr>) (enumerate 0 queue)"

definition generateQuestionQueue :: "(nat \<Rightarrow> nat) \<Rightarrow> item list \<Rightarrow> nat \<Rightarrow> question list" where
  "generateQuestionQueue rnd its reps =
     (let queue = crossProduct its reps;
          shuffled = fisherYates rnd (length queue - 1) queue
      in setIndices (stabilizeQueueNoImmediateRepeats shuffled))"

subsection \<open>Session state\<close>

datatype phase = Pregame | Playing | Results

record charStat =
  correct :: nat
  wrong :: nat

record sessionResult =
  totalQuestions_st :: nat
  correctAnswers_st :: nat
  wrongAnswers_st :: nat
  accuracy_st :: jsnum
  bestStreak_st :: nat
  currentStreak_st :: nat
  startingLives_st :: int
  livesRemaining_st :: int
  livesLost_st :: int
  livesRegenerated_st :: nat
  totalTimeMs_st :: int
  averageTimePerQuestionMs_st :: jsnum
  fastestAnswerMs_st :: int
  slowestAnswerMs_st :: int
  completed_st :: bool
  questionsCompleted_st :: nat
  characterStats_st :: "string \<Rightarrow> charStat option"
  totalCharacters_st :: nat
  repetitionsPerChar_st :: nat

record state =
  phase :: phase
  questionQueue :: "question list"
  currentIndex :: nat
  lives :: int
  maxLives :: int
  correctSinceLastRegen :: nat
  regenThreshold :: nat
  correctAnswers :: nat
  wrongAnswers :: nat
  currentStreak :: nat
  bestStreak :: nat
  livesRegenerated :: nat
  characterStats :: "string \<Rightarrow> charStat option"
  startTime :: int
  answerTimes :: "int list"
  lastAnswerTime :: int
  sessionStats :: "sessionResult option"
  pendingSaves :: nat

text \<open>The configuration of a session: the item list of the props, the chosen repetition
  count, and the entry of \<open>DIFFICULTY_CONFIG\<close> for the chosen difficulty.\<close>

record config =
  items :: "item list"
  repetitions :: nat
  diff_lives :: int
  diff_regenerates :: bool

definition totalQuestions :: "config \<Rightarrow> nat" where
  "totalQuestions cfg = length (items cfg) * repetitions cfg"

text \<open>The state of the first render (the arguments of the \<open>useState\<close> calls).\<close>

definition initialState :: state where
  "initialState =
     \<lparr>phase = Pregame, questionQueue = [], currentIndex = 0, lives = 3, maxLives = 3,
      correctSinceLastRegen = 0, regenThreshold = 10, correctAnswers = 0, wrongAnswers = 0,
      currentStreak = 0, bestStreak = 0, livesRegenerated = 0,
      characterStats = (\<lambda>_. None), startTime = 0, answerTimes = [], lastAnswerTime = 0,
      sessionStats = None, pendingSaves = 0\<rparr>"

definition currentQuestion :: "state \<Rightarrow> question option" where
  "currentQuestion s =
     (if currentIndex s < length (questionQueue s)
      then Some (questionQueue s ! currentIndex s) else None)"

definition handleStart :: "config \<Rightarrow> (nat \<Rightarrow> nat) \<Rightarrow> int \<Rightarrow> state \<Rightarrow> state" where
  "handleStart cfg rnd now s =
     (let queue = generateQuestionQueue rnd (items cfg) (repetitions cfg);
          threshold = calculateRegenThreshold (length queue)
      in s\<lparr>questionQueue := queue, currentIndex := 0,
            lives := diff_lives cfg, maxLives := diff_lives cfg,
            correctSinceLastRegen := 0, regenThreshold := threshold,
            correctAnswers := 0, wrongAnswers := 0, currentStreak := 0, bestStreak := 0,
            livesRegenerated := 0, characterStats := (\<lambda>_. None),
            startTime := now, answerTimes := [], lastAnswerTime := now,
            phase := Playing\<rparr>)"

definition ensureNextQuestionIsDifferent :: "question list \<Rightarrow> nat \<Rightarrow> question list" where
  "ensureNextQuestionIsDifferent queue answeredIndex =
     (let nextIndex = answeredIndex + 1 in
      if nextIndex \<ge> length queue then queue
      else if qid (queue ! answeredIndex) \<noteq> qid (queue ! nextIndex) then queue
      else (case findSwapIndex (qid (queue ! answeredIndex))
                   (drop (nextIndex + 1) queue) (nextIndex + 1) of
              None \<Rightarrow> queue
            | Some swapIndex \<Rightarrow> swap queue nextIndex swapIndex))"

subsection \<open>Ending the game\<close>

definition js_min :: "int list \<Rightarrow> int" where
  "js_min xs = fold min (tl xs) (hd xs)"

definition js_max :: "int list \<Rightarrow> int" where
  "js_max xs = fold max (tl xs) (hd xs)"

text \<open>\<open>endGame\<close> up to its \<open>await\<close>: it reads the closure \<open>c\<close> (answer times, regenerated
  lives, per-item tallies and starting lives of the last render) and the counters its
  caller passes, stores the result on top of the queued updates \<open>p\<close>, and starts the save.
  \<open>pendingSaves\<close> (not a React state) counts the calls of \<open>endGame\<close> whose \<open>saveSession\<close>
  has not resolved yet.\<close>

definition endGame ::
  "config \<Rightarrow> state \<Rightarrow> state \<Rightarrow> int \<Rightarrow> bool \<Rightarrow> int \<Rightarrow> nat \<Rightarrow> nat \<Rightarrow> nat \<Rightarrow> nat \<Rightarrow> nat \<Rightarrow> state" where
  "endGame cfg c p endNow completed actualLives actualCorrectAnswers actualWrongAnswers
           actualQuestionsCompleted actualBestStreak actualCurrentStreak =
     (let validAnswerTimes = filter (\<lambda>t. t > 0) (answerTimes c);
          stats = \<lparr>
            totalQuestions_st = totalQuestions cfg,
            correctAnswers_st = actualCorrectAnswers,
            wrongAnswers_st = actualWrongAnswers,
            accuracy_st =
              (if actualCorrectAnswers + actualWrongAnswers > 0
               then js_div (int actualCorrectAnswers)
                           (int (actualCorrectAnswers + actualWrongAnswers))
               else Fin 0),
            bestStreak_st = actualBestStreak,
            currentStreak_st = actualCurrentStreak,
            startingLives_st = maxLives c,
            livesRemaining_st = actualLives,
            livesLost_st = maxLives c - actualLives + int (livesRegenerated c),
            livesRegenerated_st = livesRegenerated c,
            totalTimeMs_st = endNow - startTime c,
            averageTimePerQuestionMs_st =
              (if length validAnswerTimes > 0
               then js_div (sum_list validAnswerTimes) (int (length validAnswerTimes))
               else Fin 0),
            fastestAnswerMs_st =
              (if length validAnswerTimes > 0 then js_min validAnswerTimes else 0),
            slowestAnswerMs_st =
              (if length validAnswerTimes > 0 then js_max validAnswerTimes else 0),
            completed_st = completed,
            questionsCompleted_st = actualQuestionsCompleted,
            characterStats_st = characterStats c,
            totalCharacters_st = length (items cfg),
            repetitionsPerChar_st = repetitions cfg\<rparr>
      in p\<lparr>sessionStats := Some stats, pendingSaves := pendingSaves p + 1\<rparr>)"

subsection \<open>Answering\<close>

text \<open>What one call of \<open>submitAnswer\<close> takes from outside: the verdict, the clock at
  \<open>recordAnswerTime\<close>, the entropy of the re-queue offset, the clock at \<open>endGame\<close>.\<close>

record submission =
  isCorrect :: bool
  now :: int
  draw :: nat
  endNow :: int

definition recordAnswerTime :: "int \<Rightarrow> state \<Rightarrow> state" where
  "recordAnswerTime t s =
     (let s1 = (if lastAnswerTime s > 0
                then (let timeTaken = t - lastAnswerTime s in
                      if timeTaken > 0 then s\<lparr>answerTimes := answerTimes s @ [timeTaken]\<rparr>
                      else s)
                else s)
      in s1\<lparr>lastAnswerTime := t\<rparr>)"

text \<open>\<open>newQueue.splice(insertPos, 0, failedQuestion)\<close>; a position past the end appends.\<close>

definition splice :: "'a list \<Rightarrow> nat \<Rightarrow> 'a \<Rightarrow> 'a list" where
  "splice xs pos x = take pos xs @ [x] @ drop pos xs"

definition requeue :: "config \<Rightarrow> question list \<Rightarrow> nat \<Rightarrow> nat \<Rightarrow> question list" where
  "requeue cfg prevQueue curIndex r =
     (let maxQueueSize = totalQuestions cfg * 3 in
      if length prevQueue < maxQueueSize then
        (let failedQuestion = prevQueue ! curIndex;
             remainingLength = length prevQueue - (curIndex + 1);
             minOffset = (if remainingLength > 1 then 2 else 1);
             maxOffset = max minOffset (min remainingLength 5);
             insertOffset = (if remainingLength > 0
                             then random_integer r minOffset maxOffset else 1);
             insertPos = curIndex + insertOffset
         in splice prevQueue insertPos failedQuestion)
      else prevQueue)"

definition advanceToNextQuestion ::
  "config \<Rightarrow> state \<Rightarrow> state \<Rightarrow> submission \<Rightarrow> int \<Rightarrow> bool \<Rightarrow> nat \<Rightarrow> nat \<Rightarrow> nat \<Rightarrow> nat \<Rightarrow> nat \<Rightarrow> state" where
  "advanceToNextQuestion cfg c p e newLives wasCorrect newCorrectAnswers newWrongAnswers
                         questionsCompleted newBestStreak newCurrentStreak =
     (if newLives \<le> 0 then
        endGame cfg c p (endNow e) False newLives newCorrectAnswers newWrongAnswers
                questionsCompleted newBestStreak newCurrentStreak
      else if wasCorrect then
        (if newCorrectAnswers \<ge> totalQuestions cfg then
           endGame cfg c p (endNow e) True newLives newCorrectAnswers newWrongAnswers
                   questionsCompleted newBestStreak newCurrentStreak
         else
           p\<lparr>questionQueue := ensureNextQuestionIsDifferent (questionQueue c) (currentIndex c),
             currentIndex := currentIndex c + 1\<rparr>)
      else
        p\<lparr>questionQueue :=
             ensureNextQuestionIsDifferent
               (requeue cfg (questionQueue c) (currentIndex c) (draw e)) (currentIndex c),
           currentIndex := currentIndex c + 1\<rparr>)"

definition bumpCorrect :: "(string \<Rightarrow> charStat option) \<Rightarrow> string \<Rightarrow> (string \<Rightarrow> charStat option)" where
  "bumpCorrect prev charId =
     prev(charId \<mapsto> \<lparr>correct = (case prev charId of None \<Rightarrow> 0 | Some cs \<Rightarrow> correct cs) + 1,
                      wrong = (case prev charId of None \<Rightarrow> 0 | Some cs \<Rightarrow> wrong cs)\<rparr>)"

definition bumpWrong :: "(string \<Rightarrow> charStat option) \<Rightarrow> string \<Rightarrow> (string \<Rightarrow> charStat option)" where
  "bumpWrong prev charId =
     prev(charId \<mapsto> \<lparr>correct = (case prev charId of None \<Rightarrow> 0 | Some cs \<Rightarrow> correct cs),
                      wrong = (case prev charId of None \<Rightarrow> 0 | Some cs \<Rightarrow> wrong cs) + 1\<rparr>)"

text \<open>The regeneration block of the correct branch, applied to the queued updates.\<close>

definition regenerate :: "config \<Rightarrow> state \<Rightarrow> state \<Rightarrow> state" where
  "regenerate cfg c p =
     (if diff_regenerates cfg \<and> lives c < maxLives c then
        (let newCorrectSinceRegen = correctSinceLastRegen c + 1 in
         if newCorrectSinceRegen \<ge> regenThreshold c then
           p\<lparr>lives := min (lives p + 1) (maxLives c),
             correctSinceLastRegen := 0,
             livesRegenerated := livesRegenerated p + 1\<rparr>
         else p\<lparr>correctSinceLastRegen := newCorrectSinceRegen\<rparr>)
      else p)"

definition submitAnswer :: "config \<Rightarrow> state \<Rightarrow> submission \<Rightarrow> state" where
  "submitAnswer cfg c e =
     (case currentQuestion c of
        None \<Rightarrow> c
      | Some q \<Rightarrow>
          (let p0 = recordAnswerTime (now e) c in
           if isCorrect e then
             (let newCurrentStreak = currentStreak c + 1;
                  newBestStreak = max (bestStreak c) newCurrentStreak;
                  p1 = p0\<lparr>correctAnswers := correctAnswers p0 + 1,
                          currentStreak := newCurrentStreak,
                          bestStreak := newBestStreak,
                          characterStats := bumpCorrect (characterStats p0) (qid q)\<rparr>;
                  newCorrectAnswers = correctAnswers c + 1;
                  questionsCompleted = currentIndex c + 1;
                  p2 = regenerate cfg c p1
              in advanceToNextQuestion cfg c p2 e (lives c) True newCorrectAnswers
                   (wrongAnswers c) questionsCompleted newBestStreak newCurrentStreak)
           else
             (let newLives = lives c - 1;
                  newWrongAnswers = wrongAnswers c + 1;
                  p1 = p0\<lparr>wrongAnswers := wrongAnswers p0 + 1,
                          currentStreak := 0,
                          correctSinceLastRegen := 0,
                          characterStats := bumpWrong (characterStats p0) (qid q),
                          lives := newLives\<rparr>
              in advanceToNextQuestion cfg c p1 e newLives False (correctAnswers c)
                   newWrongAnswers (currentIndex c + 1) (bestStreak c) 0)))"

subsection \<open>Events\<close>

text \<open>The rest of \<open>endGame\<close>, run when \<open>saveSession\<close> resolves: the results screen is
  shown.\<close>

definition saveSessionResolved :: "state \<Rightarrow> state" where
  "saveSessionResolved s =
     (if 0 < pendingSaves s then s\<lparr>pendingSaves := pendingSaves s - 1, phase := Results\<rparr>
      else s)"

text \<open>The game screen, the only caller of \<open>submitAnswer\<close>, is rendered when the item
  list is not empty, the phase is not \<open>pregame\<close>, and the results screen is not shown (the
  checks that the collaborators of the chosen game mode are present are taken to pass).\<close>

definition activeGameRendered :: "config \<Rightarrow> state \<Rightarrow> bool" where
  "activeGameRendered cfg s =
     (items cfg \<noteq> [] \<and> phase s \<noteq> Pregame \<and> \<not> (phase s = Results \<and> sessionStats s \<noteq> None))"

text \<open>What happens to a started game: an answer is submitted on the game screen, or a
  pending save resolves. Any order of the two is a run of the component.\<close>

datatype event = Answer submission | SaveResolved

fun react :: "config \<Rightarrow> state \<Rightarrow> event \<Rightarrow> state" where
  "react cfg s (Answer e) = (if activeGameRendered cfg s then submitAnswer cfg s e else s)"
| "react cfg s SaveResolved = saveSessionResolved s"

definition runEvents :: "config \<Rightarrow> state \<Rightarrow> event list \<Rightarrow> state" where
  "runEvents cfg s evs = foldl (react cfg) s evs"

definition sessionEvents ::
  "config \<Rightarrow> (nat \<Rightarrow> nat) \<Rightarrow> int \<Rightarrow> state \<Rightarrow> event list \<Rightarrow> state" where
  "sessionEvents cfg rnd t0 s0 evs = runEvents cfg (handleStart cfg rnd t0 s0) evs"

subsection \<open>Sessions with one transition at a time\<close>

text \<open>An answer run to completion: when the call of \<open>submitAnswer\<close> has started a save,
  that save resolves before anything else happens.\<close>

definition answerToCompletion :: "config \<Rightarrow> state \<Rightarrow> submission \<Rightarrow> state" where
  "answerToCompletion cfg s e =
     (let p = submitAnswer cfg s e in
      if pendingSaves s < pendingSaves p then saveSessionResolved p else p)"

definition dispatch :: "config \<Rightarrow> state \<Rightarrow> submission \<Rightarrow> state" where
  "dispatch cfg s e = (if activeGameRendered cfg s then answerToCompletion cfg s e else s)"

text \<open>A session in which no answer is submitted while a save is pending: a start from
  any earlier state, then the answers in their order, each run to completion.\<close>

definition run :: "config \<Rightarrow> state \<Rightarrow> submission list \<Rightarrow> state" where
  "run cfg s es = foldl (dispatch cfg) s es"

definition session :: "config \<Rightarrow> (nat \<Rightarrow> nat) \<Rightarrow> int \<Rightarrow> state \<Rightarrow> submission list \<Rightarrow> state" where
  "session cfg rnd t0 s0 es = run cfg (handleStart cfg rnd t0 s0) es"

subsection \<open>Notions used in the statements\<close>

text \<open>Whether the call of \<open>submitAnswer\<close> on a current question in state \<open>s\<close> reaches
  \<open>endGame\<close>: the two tests of \<open>advanceToNextQuestion\<close> on the arguments \<open>submitAnswer\<close>
  passes.\<close>

definition endsGame :: "config \<Rightarrow> state \<Rightarrow> submission \<Rightarrow> bool" where
  "endsGame cfg s e =
     (if isCorrect e then lives s \<le> 0 \<or> totalQuestions cfg \<le> correctAnswers s + 1
      else lives s - 1 \<le> 0)"

text \<open>Whether a correct answer on state \<open>s\<close> restores a life: the two tests of the
  regeneration block.\<close>

definition regenFires :: "config \<Rightarrow> state \<Rightarrow> bool" where
  "regenFires cfg s =
     (diff_regenerates cfg \<and> lives s < maxLives s
      \<and> regenThreshold s \<le> correctSinceLastRegen s + 1)"

text \<open>What holds of the lives in every state of a session.\<close>

definition livesInv :: "state \<Rightarrow> bool" where
  "livesInv s =
     (0 \<le> lives s \<and> lives s \<le> maxLives s \<and> (phase s = Playing \<longrightarrow> 0 < lives s)
      \<and> phase s \<noteq> Pregame \<and> (phase s = Results \<longrightarrow> sessionStats s \<noteq> None))"

text \<open>Concrete sessions: two items asked once each, three lives with regeneration; answers
  given at a clock reading, with entropy 0 for the re-queue offset.\<close>

definition cfgAB :: config where
  "cfgAB = \<lparr>items = [Prim ''A'', Prim ''B''], repetitions = 1, diff_lives = 3,
            diff_regenerates = True\<rparr>"

definition wrongAt :: "int \<Rightarrow> submission" where
  "wrongAt t = \<lparr>isCorrect = False, now = t, draw = 0, endNow = t\<rparr>"

definition correctAt :: "int \<Rightarrow> submission" where
  "correctAt t = \<lparr>isCorrect = True, now = t, draw = 0, endNow = t\<rparr>"

text \<open>What holds of the stored result in every state of a session.\<close>

definition resultInv :: "state \<Rightarrow> bool" where
  "resultInv s =
     (phase s \<noteq> Pregame \<and>
      (phase s = Results \<longrightarrow>
         (\<exists>r. sessionStats s = Some r
              \<and> correctAnswers_st r = correctAnswers s
              \<and> wrongAnswers_st r = wrongAnswers s
              \<and> 0 < correctAnswers s + wrongAnswers s
              \<and> accuracy_st r =
                  Fin (of_nat (correctAnswers s) / of_nat (correctAnswers s + wrongAnswers s)))))"

text \<open>The valid durations of a state: what \<open>endGame\<close> keeps of the answer times of its
  closure.\<close>

definition validAnswerTimes :: "state \<Rightarrow> int list" where
  "validAnswerTimes s = filter (\<lambda>t. 0 < t) (answerTimes s)"

text \<open>A session of a hundred questions: a hundred items of distinct identity, asked
  once each.\<close>

definition cfg100 :: config where
  "cfg100 = \<lparr>items = map (\<lambda>n. Obj [(''id'', replicate (Suc n) CHR ''a'')]) [0 ..< 100],
             repetitions = 1, diff_lives = 3, diff_regenerates = True\<rparr>"

definition tenCorrect :: "submission list" where
  "tenCorrect = replicate 10 (correctAt 2000)"

text \<open>What holds of the counters in every state of a session.\<close>

definition playInv :: "config \<Rightarrow> state \<Rightarrow> bool" where
  "playInv cfg s =
     (phase s \<noteq> Pregame \<and> (phase s = Results \<longrightarrow> sessionStats s \<noteq> None) \<and>
      (phase s = Playing \<longrightarrow>
         0 < lives s \<and> maxLives s = diff_lives cfg
         \<and> lives s = diff_lives cfg - int (wrongAnswers s) + int (livesRegenerated s)
         \<and> 5 * livesRegenerated s + min (correctSinceLastRegen s) 5 \<le> correctAnswers s
         \<and> 5 \<le> regenThreshold s
         \<and> correctAnswers s < totalQuestions cfg
         \<and> currentIndex s = correctAnswers s + wrongAnswers s
         \<and> length (questionQueue s)
             = totalQuestions cfg + min (wrongAnswers s) (2 * totalQuestions cfg)))"

text \<open>The starting lives for which the lives run out before the queue does: with \<open>N\<close>
  questions a session survives at most \<open>lives - 1 + (N - 1) div 5\<close> incorrect answers (a
  life comes back after five correct answers at the earliest), and the queue stops
  growing after \<open>2 * N\<close> of them. Every configuration with at most three starting lives
  is within this budget.\<close>

definition withinRequeueBudget :: "config \<Rightarrow> bool" where
  "withinRequeueBudget cfg =
     (diff_lives cfg + int ((totalQuestions cfg - 1) div 5) \<le> 2 * int (totalQuestions cfg) + 1)"

text \<open>The number of steps from \<open>playing\<close> to \<open>results\<close> along the answers \<open>es\<close>.\<close>

fun resultsTransitions :: "config \<Rightarrow> state \<Rightarrow> submission list \<Rightarrow> nat" where
  "resultsTransitions cfg s [] = 0"
| "resultsTransitions cfg s (e # es) =
     (if phase s = Playing \<and> phase (dispatch cfg s e) = Results then 1 else 0)
     + resultsTransitions cfg (dispatch cfg s e) es"

text \<open>One item asked once, with three starting lives.\<close>

definition cfgOne :: config where
  "cfgOne = \<lparr>items = [Prim ''A''], repetitions = 1, diff_lives = 3,
             diff_regenerates = True\<rparr>"

text \<open>Three incorrect answers with no save resolved in between; two correct ones.\<close>

definition threeWrong :: "event list" where
  "threeWrong = [Answer (wrongAt 1500), Answer (wrongAt 1600), Answer (wrongAt 1700)]"

definition twoCorrect :: "event list" where
  "twoCorrect = [Answer (correctAt 1500), Answer (correctAt 1600)]"

text \<open>One item asked once, with four starting lives.\<close>

definition cfgFour :: config where
  "cfgFour = \<lparr>items = [Prim ''A''], repetitions = 1, diff_lives = 4,
              diff_regenerates = True\<rparr>"

text \<open>The completion flag of the stored result, if there is one.\<close>

definition completedFlag :: "state \<Rightarrow> bool option" where
  "completedFlag s = map_option completed_st (sessionStats s)"

text \<open>Position \<open>k\<close> of a queue is settled when its entry and the next differ in identity,
  or every later entry has the identity of entry \<open>k\<close> (no other identity is left to put
  after it).\<close>

definition settled :: "question list \<Rightarrow> nat \<Rightarrow> bool" where
  "settled q k =
     (qid (q ! k) \<noteq> qid (q ! (k + 1))
      \<or> (\<forall>m. k < m \<and> m < length q \<longrightarrow> qid (q ! m) = qid (q ! k)))"

text \<open>Three items asked twice each.\<close>

definition itemsABC :: "item list" where
  "itemsABC = [Prim ''A'', Prim ''B'', Prim ''C'']"

section \<open>Properties\<close>

subsection \<open>Lengths\<close>

lemma length_swap [simp]: "length (swap q a b) = length q"
  by (simp add: swap_def)

lemma length_ensureNext [simp]:
  "length (ensureNextQuestionIsDifferent q i) = length q"
  by (simp add: ensureNextQuestionIsDifferent_def Let_def split: option.splits)

lemma length_splice [simp]: "length (splice xs p x) = Suc (length xs)"
  by (auto simp: splice_def min_def)

lemma length_requeue:
  "length (requeue cfg q i r) =
     (if length q < totalQuestions cfg * 3 then length q + 1 else length q)"
  by (simp add: requeue_def Let_def)

lemma length_fisherYates [simp]: "length (fisherYates rnd n q) = length q"
  by (induction n arbitrary: q) simp_all

declare stabilizeLoop.simps [simp del]

lemma length_stabilizeLoop [simp]: "length (stabilizeLoop i q) = length q"
proof (induction i q rule: stabilizeLoop.induct)
  case (1 i queue)
  show ?case
    by (subst stabilizeLoop.simps) (use 1 in \<open>auto split: option.splits\<close>)
qed

lemma length_crossProduct [simp]: "length (crossProduct its reps) = length its * reps"
  by (induction its) (simp_all add: crossProduct_def)

lemma length_generateQuestionQueue [simp]:
  "length (generateQuestionQueue rnd its reps) = length its * reps"
  by (simp add: generateQuestionQueue_def setIndices_def stabilizeQueueNoImmediateRepeats_def Let_def)

lemma submitAnswer_no_question:
  "currentQuestion s = None \<Longrightarrow> submitAnswer cfg s e = s"
  by (simp add: submitAnswer_def)

lemma answerToCompletion_no_question:
  "currentQuestion s = None \<Longrightarrow> answerToCompletion cfg s e = s"
  by (simp add: answerToCompletion_def submitAnswer_no_question)

lemma recordAnswerTime_fields [simp]:
  "phase (recordAnswerTime t s) = phase s"
  "questionQueue (recordAnswerTime t s) = questionQueue s"
  "currentIndex (recordAnswerTime t s) = currentIndex s"
  "lives (recordAnswerTime t s) = lives s"
  "maxLives (recordAnswerTime t s) = maxLives s"
  "correctSinceLastRegen (recordAnswerTime t s) = correctSinceLastRegen s"
  "regenThreshold (recordAnswerTime t s) = regenThreshold s"
  "correctAnswers (recordAnswerTime t s) = correctAnswers s"
  "wrongAnswers (recordAnswerTime t s) = wrongAnswers s"
  "currentStreak (recordAnswerTime t s) = currentStreak s"
  "bestStreak (recordAnswerTime t s) = bestStreak s"
  "livesRegenerated (recordAnswerTime t s) = livesRegenerated s"
  "characterStats (recordAnswerTime t s) = characterStats s"
  "startTime (recordAnswerTime t s) = startTime s"
  "sessionStats (recordAnswerTime t s) = sessionStats s"
  "pendingSaves (recordAnswerTime t s) = pendingSaves s"
  "lastAnswerTime (recordAnswerTime t s) = t"
  by (simp_all add: recordAnswerTime_def Let_def)

subsection \<open>One answer\<close>

lemmas submit_defs =
  submitAnswer_def advanceToNextQuestion_def endGame_def regenerate_def Let_def
  endsGame_def regenFires_def

lemma raw_pendingSaves:
  "currentQuestion s \<noteq> None \<Longrightarrow>
   pendingSaves (submitAnswer cfg s e) =
     (if endsGame cfg s e then pendingSaves s + 1 else pendingSaves s)"
  by (auto simp: submit_defs)

lemma raw_phase [simp]: "phase (submitAnswer cfg s e) = phase s"
  by (auto simp: submit_defs split: option.splits)

lemma raw_lives:
  "currentQuestion s \<noteq> None \<Longrightarrow>
   lives (submitAnswer cfg s e) =
     (if isCorrect e then (if regenFires cfg s then min (lives s + 1) (maxLives s) else lives s)
      else lives s - 1)"
  by (auto simp: submit_defs)

lemma raw_maxLives [simp]: "maxLives (submitAnswer cfg s e) = maxLives s"
  by (auto simp: submit_defs split: option.splits)

lemma raw_regenThreshold [simp]: "regenThreshold (submitAnswer cfg s e) = regenThreshold s"
  by (auto simp: submit_defs split: option.splits)

lemma raw_correctAnswers:
  "currentQuestion s \<noteq> None \<Longrightarrow>
   correctAnswers (submitAnswer cfg s e) =
     (if isCorrect e then correctAnswers s + 1 else correctAnswers s)"
  by (auto simp: submit_defs)

lemma raw_wrongAnswers:
  "currentQuestion s \<noteq> None \<Longrightarrow>
   wrongAnswers (submitAnswer cfg s e) =
     (if isCorrect e then wrongAnswers s else wrongAnswers s + 1)"
  by (auto simp: submit_defs)

lemma raw_currentIndex:
  "currentQuestion s \<noteq> None \<Longrightarrow>
   currentIndex (submitAnswer cfg s e) =
     (if endsGame cfg s e then currentIndex s else currentIndex s + 1)"
  by (auto simp: submit_defs)

lemma raw_correctSinceLastRegen:
  "currentQuestion s \<noteq> None \<Longrightarrow>
   correctSinceLastRegen (submitAnswer cfg s e) =
     (if isCorrect e then
        (if diff_regenerates cfg \<and> lives s < maxLives s then
           (if regenThreshold s \<le> correctSinceLastRegen s + 1 then 0
            else correctSinceLastRegen s + 1)
         else correctSinceLastRegen s)
      else 0)"
  by (auto simp: submit_defs)

lemma raw_livesRegenerated:
  "currentQuestion s \<noteq> None \<Longrightarrow>
   livesRegenerated (submitAnswer cfg s e) =
     (if isCorrect e \<and> regenFires cfg s then livesRegenerated s + 1 else livesRegenerated s)"
  by (auto simp: submit_defs)

lemma raw_queue_length:
  "currentQuestion s \<noteq> None \<Longrightarrow>
   length (questionQueue (submitAnswer cfg s e)) =
     (if \<not> isCorrect e \<and> \<not> endsGame cfg s e
         \<and> length (questionQueue s) < totalQuestions cfg * 3
      then length (questionQueue s) + 1 else length (questionQueue s))"
  by (auto simp: submit_defs length_requeue)

lemma raw_sessionStats_ends:
  "currentQuestion s \<noteq> None \<Longrightarrow> endsGame cfg s e \<Longrightarrow>
   sessionStats (submitAnswer cfg s e) \<noteq> None"
  by (auto simp: submit_defs split: if_splits)

lemma raw_sessionStats_continues:
  "currentQuestion s \<noteq> None \<Longrightarrow> \<not> endsGame cfg s e \<Longrightarrow>
   sessionStats (submitAnswer cfg s e) = sessionStats s"
  by (auto simp: submit_defs split: if_splits)

subsection \<open>One answer run to completion\<close>

lemma saveSessionResolved_fields [simp]:
  "questionQueue (saveSessionResolved s) = questionQueue s"
  "currentIndex (saveSessionResolved s) = currentIndex s"
  "lives (saveSessionResolved s) = lives s"
  "maxLives (saveSessionResolved s) = maxLives s"
  "correctSinceLastRegen (saveSessionResolved s) = correctSinceLastRegen s"
  "regenThreshold (saveSessionResolved s) = regenThreshold s"
  "correctAnswers (saveSessionResolved s) = correctAnswers s"
  "wrongAnswers (saveSessionResolved s) = wrongAnswers s"
  "livesRegenerated (saveSessionResolved s) = livesRegenerated s"
  "answerTimes (saveSessionResolved s) = answerTimes s"
  "lastAnswerTime (saveSessionResolved s) = lastAnswerTime s"
  "sessionStats (saveSessionResolved s) = sessionStats s"
  by (simp_all add: saveSessionResolved_def)

lemma answerToCompletion_eq:
  "currentQuestion s \<noteq> None \<Longrightarrow>
   answerToCompletion cfg s e =
     (if endsGame cfg s e then saveSessionResolved (submitAnswer cfg s e)
      else submitAnswer cfg s e)"
  by (simp add: answerToCompletion_def raw_pendingSaves)

text \<open>Every session with one transition at a time is a run of the component: each
  answer, followed by the resolution of the save it started, if it started one.\<close>

lemma runEvents_append: "runEvents cfg s (evs @ evs') = runEvents cfg (runEvents cfg s evs) evs'"
  by (simp add: runEvents_def)

lemma dispatch_as_events:
  "dispatch cfg s e =
     runEvents cfg s
       (if activeGameRendered cfg s \<and> pendingSaves s < pendingSaves (submitAnswer cfg s e)
        then [Answer e, SaveResolved] else [Answer e])"
  by (simp add: dispatch_def answerToCompletion_def runEvents_def Let_def)

lemma run_as_events: "\<exists>evs. run cfg s es = runEvents cfg s evs"
proof (induction es arbitrary: s)
  case Nil
  have "run cfg s [] = runEvents cfg s []" by (simp add: run_def runEvents_def)
  then show ?case by blast
next
  case (Cons e es)
  from Cons.IH [of "dispatch cfg s e"] obtain evs
    where evs: "run cfg (dispatch cfg s e) es = runEvents cfg (dispatch cfg s e) evs" by blast
  obtain ev where ev: "dispatch cfg s e = runEvents cfg s ev"
    using dispatch_as_events by blast
  have "run cfg s (e # es) = runEvents cfg s (ev @ evs)"
    using evs ev by (simp add: run_def runEvents_append)
  then show ?case by blast
qed

lemma session_as_events: "\<exists>evs. session cfg rnd t0 s0 es = sessionEvents cfg rnd t0 s0 evs"
  using run_as_events [of cfg "handleStart cfg rnd t0 s0" es]
  by (simp add: session_def sessionEvents_def)

lemma submit_phase:
  "currentQuestion s \<noteq> None \<Longrightarrow>
   phase (answerToCompletion cfg s e) = (if endsGame cfg s e then Results else phase s)"
  by (simp add: answerToCompletion_eq saveSessionResolved_def raw_pendingSaves)

lemma submit_lives:
  "currentQuestion s \<noteq> None \<Longrightarrow>
   lives (answerToCompletion cfg s e) =
     (if isCorrect e then (if regenFires cfg s then min (lives s + 1) (maxLives s) else lives s)
      else lives s - 1)"
  by (simp add: answerToCompletion_eq raw_lives)

lemma submit_maxLives [simp]: "maxLives (answerToCompletion cfg s e) = maxLives s"
  by (simp add: answerToCompletion_def Let_def)

lemma submit_regenThreshold [simp]:
  "regenThreshold (answerToCompletion cfg s e) = regenThreshold s"
  by (simp add: answerToCompletion_def Let_def)

lemma submit_correctAnswers:
  "currentQuestion s \<noteq> None \<Longrightarrow>
   correctAnswers (answerToCompletion cfg s e) =
     (if isCorrect e then correctAnswers s + 1 else correctAnswers s)"
  by (simp add: answerToCompletion_eq raw_correctAnswers)

lemma submit_wrongAnswers:
  "currentQuestion s \<noteq> None \<Longrightarrow>
   wrongAnswers (answerToCompletion cfg s e) =
     (if isCorrect e then wrongAnswers s else wrongAnswers s + 1)"
  by (simp add: answerToCompletion_eq raw_wrongAnswers)

lemma submit_currentIndex:
  "currentQuestion s \<noteq> None \<Longrightarrow>
   currentIndex (answerToCompletion cfg s e) =
     (if endsGame cfg s e then currentIndex s else currentIndex s + 1)"
  by (simp add: answerToCompletion_eq raw_currentIndex)

lemma submit_correctSinceLastRegen:
  "currentQuestion s \<noteq> None \<Longrightarrow>
   correctSinceLastRegen (answerToCompletion cfg s e) =
     (if isCorrect e then
        (if diff_regenerates cfg \<and> lives s < maxLives s then
           (if regenThreshold s \<le> correctSinceLastRegen s + 1 then 0
            else correctSinceLastRegen s + 1)
         else correctSinceLastRegen s)
      else 0)"
  by (auto simp: answerToCompletion_eq raw_correctSinceLastRegen)

lemma submit_livesRegenerated:
  "currentQuestion s \<noteq> None \<Longrightarrow>
   livesRegenerated (answerToCompletion cfg s e) =
     (if isCorrect e \<and> regenFires cfg s then livesRegenerated s + 1 else livesRegenerated s)"
  by (simp add: answerToCompletion_eq raw_livesRegenerated)

lemma submit_queue:
  "questionQueue (answerToCompletion cfg s e) = questionQueue (submitAnswer cfg s e)"
  by (simp add: answerToCompletion_def Let_def)

lemma submit_queue_length:
  "currentQuestion s \<noteq> None \<Longrightarrow>
   length (questionQueue (answerToCompletion cfg s e)) =
     (if \<not> isCorrect e \<and> \<not> endsGame cfg s e
         \<and> length (questionQueue s) < totalQuestions cfg * 3
      then length (questionQueue s) + 1 else length (questionQueue s))"
  by (simp add: submit_queue raw_queue_length)

lemma submit_sessionStats_ends:
  "currentQuestion s \<noteq> None \<Longrightarrow> endsGame cfg s e \<Longrightarrow>
   sessionStats (answerToCompletion cfg s e) \<noteq> None"
  by (simp add: answerToCompletion_eq raw_sessionStats_ends)

lemma run_Nil [simp]: "run cfg s [] = s"
  by (simp add: run_def)

lemma run_Cons [simp]: "run cfg s (e # es) = run cfg (dispatch cfg s e) es"
  by (simp add: run_def)

lemma run_append [simp]: "run cfg s (es @ es') = run cfg (run cfg s es) es'"
  by (simp add: run_def)

lemma run_invariant:
  assumes "P s" and "\<And>s e. P s \<Longrightarrow> P (dispatch cfg s e)"
  shows "P (run cfg s es)"
  using assms(1) by (induction es arbitrary: s) (simp_all add: assms(2))

lemma handleStart_fields [simp]:
  "phase (handleStart cfg rnd t s) = Playing"
  "length (questionQueue (handleStart cfg rnd t s)) = totalQuestions cfg"
  "currentIndex (handleStart cfg rnd t s) = 0"
  "lives (handleStart cfg rnd t s) = diff_lives cfg"
  "maxLives (handleStart cfg rnd t s) = diff_lives cfg"
  "correctSinceLastRegen (handleStart cfg rnd t s) = 0"
  "regenThreshold (handleStart cfg rnd t s) = calculateRegenThreshold (totalQuestions cfg)"
  "correctAnswers (handleStart cfg rnd t s) = 0"
  "wrongAnswers (handleStart cfg rnd t s) = 0"
  "livesRegenerated (handleStart cfg rnd t s) = 0"
  "answerTimes (handleStart cfg rnd t s) = []"
  "lastAnswerTime (handleStart cfg rnd t s) = t"
  "startTime (handleStart cfg rnd t s) = t"
  by (simp_all add: handleStart_def Let_def totalQuestions_def)

lemma livesInv_rendered:
  "livesInv s \<Longrightarrow> activeGameRendered cfg s \<Longrightarrow> phase s = Playing"
  by (cases "phase s") (auto simp: livesInv_def activeGameRendered_def)

lemma livesInv_submit:
  assumes "livesInv s" "phase s = Playing"
  shows "livesInv (answerToCompletion cfg s e)"
proof (cases "currentQuestion s")
  case None
  then show ?thesis using assms by (simp add: answerToCompletion_no_question)
next
  case (Some q)
  then have cq: "currentQuestion s \<noteq> None" by simp
  show ?thesis
    using assms submit_sessionStats_ends [OF cq, of cfg e]
    unfolding livesInv_def submit_phase [OF cq] submit_lives [OF cq] submit_maxLives
    by (auto simp: endsGame_def regenFires_def)
qed

lemma livesInv_dispatch: "livesInv s \<Longrightarrow> livesInv (dispatch cfg s e)"
  by (simp add: dispatch_def livesInv_submit livesInv_rendered)

lemma livesInv_session:
  "0 < diff_lives cfg \<Longrightarrow> livesInv (session cfg rnd t0 s0 es)"
  unfolding session_def
  by (rule run_invariant) (simp_all add: livesInv_def livesInv_dispatch [unfolded livesInv_def])

subsection \<open>Lives\<close>

text \<open>As long as no answer is submitted while a save is pending, the lives of a session
  started with a positive number of lives stay between 0 and \<open>maxLives\<close>: an incorrect
  answer to the current question takes exactly one life and leaves at least 0; a correct
  answer restores exactly one life when the regeneration fires and none otherwise.\<close>

lemma lives_in_range_one_at_a_time:
  assumes "0 < diff_lives cfg" and "s = session cfg rnd t0 s0 es"
  shows "0 \<le> lives s \<and> lives s \<le> maxLives s
       \<and> (activeGameRendered cfg s \<and> currentQuestion s \<noteq> None \<longrightarrow>
            (\<not> isCorrect e \<longrightarrow>
               lives (dispatch cfg s e) = lives s - 1 \<and> 0 \<le> lives (dispatch cfg s e))
          \<and> (isCorrect e \<longrightarrow>
               lives (dispatch cfg s e) =
                 (if diff_regenerates cfg \<and> lives s < maxLives s
                     \<and> regenThreshold s \<le> correctSinceLastRegen s + 1
                  then lives s + 1 else lives s)
               \<and> lives (dispatch cfg s e) \<le> maxLives (dispatch cfg s e)))"
proof -
  have inv: "livesInv s"
    unfolding assms(2) by (rule livesInv_session [OF assms(1)])
  have range: "0 \<le> lives s \<and> lives s \<le> maxLives s"
    using inv by (simp add: livesInv_def)
  have step: "\<not> isCorrect e \<longrightarrow>
       lives (dispatch cfg s e) = lives s - 1 \<and> 0 \<le> lives (dispatch cfg s e)"
    "isCorrect e \<longrightarrow>
       lives (dispatch cfg s e) =
         (if diff_regenerates cfg \<and> lives s < maxLives s
             \<and> regenThreshold s \<le> correctSinceLastRegen s + 1
          then lives s + 1 else lives s)
       \<and> lives (dispatch cfg s e) \<le> maxLives (dispatch cfg s e)"
    if "activeGameRendered cfg s" "currentQuestion s \<noteq> None"
    using that inv livesInv_rendered [OF inv that(1)]
    by (auto simp: dispatch_def submit_lives regenFires_def livesInv_def)
  show ?thesis
    using range step by blast
qed

text \<open>C1 holds of the code only in such sessions. \<open>submitAnswer\<close> tests neither the lives
  nor the phase, and the game screen stays rendered until the save that \<open>endGame\<close> awaits
  has resolved; the decrement has no lower clamp (the regeneration clamps with
  \<open>Math.min\<close>). With three lives, the third incorrect answer leaves 0 lives and calls
  \<open>endGame\<close>; a fourth answer submitted before the save resolves leaves \<open>-1\<close>.\<close>

theorem lives_negative_after_late_answer:
  "lives (sessionEvents cfgAB (\<lambda>i. i) 1000 initialState
            [Answer (wrongAt 1500), Answer (wrongAt 1600), Answer (wrongAt 1700)]) = 0
   \<and> pendingSaves (sessionEvents cfgAB (\<lambda>i. i) 1000 initialState
            [Answer (wrongAt 1500), Answer (wrongAt 1600), Answer (wrongAt 1700)]) = 1
   \<and> activeGameRendered cfgAB (sessionEvents cfgAB (\<lambda>i. i) 1000 initialState
            [Answer (wrongAt 1500), Answer (wrongAt 1600), Answer (wrongAt 1700)])
   \<and> map_option qid (currentQuestion (sessionEvents cfgAB (\<lambda>i. i) 1000 initialState
            [Answer (wrongAt 1500), Answer (wrongAt 1600), Answer (wrongAt 1700)])) = Some ''A''
   \<and> lives (sessionEvents cfgAB (\<lambda>i. i) 1000 initialState
            [Answer (wrongAt 1500), Answer (wrongAt 1600), Answer (wrongAt 1700),
             Answer (wrongAt 1800)]) = - 1
   \<and> maxLives (sessionEvents cfgAB (\<lambda>i. i) 1000 initialState
            [Answer (wrongAt 1500), Answer (wrongAt 1600), Answer (wrongAt 1700),
             Answer (wrongAt 1800)]) = 3"
  by code_simp

lemma findSwapIndex_Some:
  "findSwapIndex cid xs j = Some k \<Longrightarrow>
   j \<le> k \<and> k < j + length xs \<and> qid (xs ! (k - j)) \<noteq> cid
   \<and> (\<forall>m < k - j. qid (xs ! m) = cid)"
proof (induction xs arbitrary: j)
  case Nil
  then show ?case by simp
next
  case (Cons x xs)
  show ?case
  proof (cases "qid x \<noteq> cid")
    case True
    with Cons.prems show ?thesis by simp
  next
    case False
    with Cons.prems have "findSwapIndex cid xs (Suc j) = Some k" by simp
    from Cons.IH [OF this]
    have a: "Suc j \<le> k" and b: "k < Suc j + length xs"
      and c: "qid (xs ! (k - Suc j)) \<noteq> cid"
      and d: "\<forall>m < k - Suc j. qid (xs ! m) = cid" by auto
    have kj: "k - j = Suc (k - Suc j)" using a by arith
    have "qid ((x # xs) ! (k - j)) \<noteq> cid" using c by (simp add: kj)
    moreover have "\<forall>m < k - j. qid ((x # xs) ! m) = cid"
    proof (intro allI impI)
      fix m assume m: "m < k - j"
      show "qid ((x # xs) ! m) = cid"
      proof (cases m)
        case 0
        with False show ?thesis by simp
      next
        case (Suc m')
        with m kj have "m' < k - Suc j" by arith
        with d Suc show ?thesis by simp
      qed
    qed
    ultimately show ?thesis using a b by simp
  qed
qed

lemma findSwapIndex_None:
  "findSwapIndex cid xs j = None \<Longrightarrow> \<forall>x \<in> set xs. qid x = cid"
  by (induction xs arbitrary: j) (auto split: if_splits)

lemma findSwapIndex_drop_Some:
  assumes "findSwapIndex cid (drop j q) j = Some k"
  shows "j \<le> k" "k < length q" "qid (q ! k) \<noteq> cid" "\<forall>m. j \<le> m \<and> m < k \<longrightarrow> qid (q ! m) = cid"
proof -
  from findSwapIndex_Some [OF assms]
  have a: "j \<le> k" and b: "k < j + length (drop j q)"
    and c: "qid (drop j q ! (k - j)) \<noteq> cid"
    and d: "\<forall>m < k - j. qid (drop j q ! m) = cid" by auto
  show "j \<le> k" by (rule a)
  show kl: "k < length q" using a b by simp
  show "qid (q ! k) \<noteq> cid" using a kl c by simp
  show "\<forall>m. j \<le> m \<and> m < k \<longrightarrow> qid (q ! m) = cid"
  proof (intro allI impI)
    fix m assume m: "j \<le> m \<and> m < k"
    then have "m - j < k - j" by arith
    with d have "qid (drop j q ! (m - j)) = cid" by blast
    with m kl show "qid (q ! m) = cid" by simp
  qed
qed

lemma findSwapIndex_drop_None:
  assumes "findSwapIndex cid (drop j q) j = None" "j \<le> m" "m < length q"
  shows "qid (q ! m) = cid"
proof -
  have "drop j q ! (m - j) = q ! m" using assms(2,3) by simp
  moreover have "m - j < length (drop j q)" using assms(2,3) by simp
  ultimately have "q ! m \<in> set (drop j q)" by (metis nth_mem)
  with findSwapIndex_None [OF assms(1)] show ?thesis by blast
qed

lemma mset_swap_queue: "a < length q \<Longrightarrow> b < length q \<Longrightarrow> mset (swap q a b) = mset q"
  unfolding swap_def by (rule mset_swap)

lemma mset_case_swap:
  "j < length q \<Longrightarrow>
   mset (case findSwapIndex c (drop n q) n of None \<Rightarrow> q | Some k \<Rightarrow> swap q j k) = mset q"
  by (auto split: option.splits simp: mset_swap_queue dest: findSwapIndex_drop_Some(2))

lemma mset_ensureNext [simp]: "mset (ensureNextQuestionIsDifferent q i) = mset q"
  by (simp add: ensureNextQuestionIsDifferent_def Let_def mset_case_swap)

lemma mset_splice [simp]: "mset (splice xs p x) = add_mset x (mset xs)"
proof -
  have "mset (take p xs) + mset (drop p xs) = mset xs"
    by (simp flip: mset_append)
  then show ?thesis by (simp add: splice_def)
qed

lemma mset_requeue:
  "mset (requeue cfg q i r) =
     (if length q < totalQuestions cfg * 3 then add_mset (q ! i) (mset q) else mset q)"
  by (simp add: requeue_def Let_def)

lemma submit_queue_mset:
  "currentQuestion s \<noteq> None \<Longrightarrow>
   mset (questionQueue (answerToCompletion cfg s e)) =
     (if \<not> isCorrect e \<and> \<not> endsGame cfg s e
         \<and> length (questionQueue s) < totalQuestions cfg * 3
      then add_mset (questionQueue s ! currentIndex s) (mset (questionQueue s))
      else mset (questionQueue s))"
  by (auto simp: submit_queue submit_defs mset_requeue)

lemma queue_bound_dispatch:
  "length (questionQueue s) \<le> 3 * totalQuestions cfg \<Longrightarrow>
   length (questionQueue (dispatch cfg s e)) \<le> 3 * totalQuestions cfg"
  by (cases "currentQuestion s")
     (simp_all add: dispatch_def answerToCompletion_no_question submit_queue_length)

lemma queue_bound_session:
  "length (questionQueue (session cfg rnd t0 s0 es)) \<le> 3 * totalQuestions cfg"
  unfolding session_def
  by (rule run_invariant) (simp_all add: queue_bound_dispatch)

lemma queue_bound_react:
  assumes "length (questionQueue s) \<le> 3 * totalQuestions cfg"
  shows "length (questionQueue (react cfg s ev)) \<le> 3 * totalQuestions cfg"
proof (cases ev)
  case (Answer e)
  then show ?thesis
    using assms
    by (cases "currentQuestion s")
       (simp_all add: submitAnswer_no_question raw_queue_length)
next
  case SaveResolved
  then show ?thesis using assms by simp
qed

text \<open>The bound on the queue holds in every run of the component, whatever the order of
  answers and resolved saves.\<close>

lemma queue_bound_events:
  "length (questionQueue (sessionEvents cfg rnd t0 s0 evs)) \<le> 3 * totalQuestions cfg"
proof -
  have "length (questionQueue (runEvents cfg s evs)) \<le> 3 * totalQuestions cfg"
    if "length (questionQueue s) \<le> 3 * totalQuestions cfg" for s
    using that
    by (induction evs arbitrary: s) (simp_all add: runEvents_def queue_bound_react)
  then show ?thesis by (simp add: sessionEvents_def)
qed

subsection \<open>The queue\<close>

text \<open>C5. In every state of a session the queue holds at most three times
  \<open>totalQuestions\<close> entries. An answer adds one entry, a copy of the entry just answered,
  exactly when it is an incorrect answer to the current question that leaves a life and
  the queue is shorter than that cap; every other answer leaves the entries of the queue
  as they are.\<close>

theorem queue_length_bounded:
  assumes "s = session cfg rnd t0 s0 es"
  shows "length (questionQueue s) \<le> 3 * totalQuestions cfg
       \<and> (if activeGameRendered cfg s \<and> currentQuestion s \<noteq> None
              \<and> \<not> isCorrect e \<and> 1 < lives s
              \<and> length (questionQueue s) < 3 * totalQuestions cfg
           then mset (questionQueue (dispatch cfg s e))
                  = add_mset (questionQueue s ! currentIndex s) (mset (questionQueue s))
                \<and> length (questionQueue (dispatch cfg s e)) = length (questionQueue s) + 1
           else mset (questionQueue (dispatch cfg s e)) = mset (questionQueue s)
                \<and> length (questionQueue (dispatch cfg s e)) = length (questionQueue s))"
proof -
  have bound: "length (questionQueue s) \<le> 3 * totalQuestions cfg"
    unfolding assms by (rule queue_bound_session)
  have step: "mset (questionQueue (dispatch cfg s e)) =
      (if activeGameRendered cfg s \<and> currentQuestion s \<noteq> None
          \<and> \<not> isCorrect e \<and> 1 < lives s
          \<and> length (questionQueue s) < 3 * totalQuestions cfg
       then add_mset (questionQueue s ! currentIndex s) (mset (questionQueue s))
       else mset (questionQueue s))"
    by (cases "currentQuestion s")
       (auto simp: dispatch_def answerToCompletion_no_question submit_queue_mset endsGame_def
             mult.commute)
  have len: "length (questionQueue (dispatch cfg s e)) = size (mset (questionQueue (dispatch cfg s e)))"
    by simp
  show ?thesis
    unfolding len step using bound by simp
qed

theorem queue_length_bounded_witness:
  "length (questionQueue (session cfgAB (\<lambda>i. i) 1000 initialState [wrongAt 1500])) = 3
   \<and> length (questionQueue (dispatch cfgAB
        (session cfgAB (\<lambda>i. i) 1000 initialState [wrongAt 1500]) (wrongAt 1600))) = 4
   \<and> 3 * totalQuestions cfgAB = 6"
proof -
  have l: "length (questionQueue (session cfgAB (\<lambda>i. i) 1000 initialState [wrongAt 1500])) = 3"
    by code_simp
  have n: "3 * totalQuestions cfgAB = 6" by code_simp
  have a: "activeGameRendered cfgAB (session cfgAB (\<lambda>i. i) 1000 initialState [wrongAt 1500])"
    by code_simp
  have c: "currentQuestion (session cfgAB (\<lambda>i. i) 1000 initialState [wrongAt 1500]) \<noteq> None"
    by code_simp
  have v: "1 < lives (session cfgAB (\<lambda>i. i) 1000 initialState [wrongAt 1500])"
    by code_simp
  have w: "\<not> isCorrect (wrongAt 1600)" by (simp add: wrongAt_def)
  from queue_length_bounded [OF refl, of cfgAB "\<lambda>i. i" 1000 initialState "[wrongAt 1500]" "wrongAt 1600"]
  show ?thesis using l n a c v w by simp
qed

text \<open>C10. When there is no current question (the queue is empty, or \<open>currentIndex\<close> is
  at or past its end) \<open>submitAnswer\<close> returns the state it was given: queue, index, lives,
  counters, tallies, answer times and phase are all unchanged.\<close>

theorem submit_without_question:
  assumes "length (questionQueue s) \<le> currentIndex s"
  shows "currentQuestion s = None \<and> submitAnswer cfg s e = s"
  using assms by (simp add: currentQuestion_def submitAnswer_def)

theorem submit_without_question_witness:
  "length (questionQueue initialState) \<le> currentIndex initialState
   \<and> currentQuestion initialState = None
   \<and> submitAnswer cfgAB initialState (wrongAt 1500) = initialState"
proof -
  have h: "length (questionQueue initialState) \<le> currentIndex initialState"
    by (simp add: initialState_def)
  from submit_without_question [OF h] show ?thesis using h by simp
qed

lemma endGame_accuracy:
  "sessionStats (endGame cfg c p t b l ca wa q bs cs) = Some r \<Longrightarrow>
   accuracy_st r = (if ca + wa = 0 then Fin 0 else Fin (of_nat ca / of_nat (ca + wa)))
   \<and> correctAnswers_st r = ca \<and> wrongAnswers_st r = wa"
  by (auto simp: endGame_def js_div_def Let_def)

lemma raw_result:
  assumes "currentQuestion s \<noteq> None" "endsGame cfg s e"
  shows "\<exists>r. sessionStats (submitAnswer cfg s e) = Some r
     \<and> correctAnswers_st r = correctAnswers (submitAnswer cfg s e)
     \<and> wrongAnswers_st r = wrongAnswers (submitAnswer cfg s e)
     \<and> 0 < correctAnswers (submitAnswer cfg s e) + wrongAnswers (submitAnswer cfg s e)
     \<and> accuracy_st r =
         Fin (of_nat (correctAnswers (submitAnswer cfg s e))
              / of_nat (correctAnswers (submitAnswer cfg s e)
                        + wrongAnswers (submitAnswer cfg s e)))"
  using assms
  by (auto simp: submit_defs js_div_def recordAnswerTime_def split: if_splits)

lemma resultInv_submit:
  assumes "phase s = Playing"
  shows "resultInv (answerToCompletion cfg s e)"
proof (cases "currentQuestion s")
  case None
  then show ?thesis using assms by (simp add: answerToCompletion_no_question resultInv_def)
next
  case (Some q)
  then have cq: "currentQuestion s \<noteq> None" by simp
  show ?thesis
  proof (cases "endsGame cfg s e")
    case False
    then show ?thesis using assms cq by (simp add: resultInv_def submit_phase)
  next
    case True
    have ph: "phase (answerToCompletion cfg s e) = Results"
      using True by (simp add: submit_phase [OF cq])
    from raw_result [OF cq True] show ?thesis
      unfolding resultInv_def ph using True by (simp add: answerToCompletion_eq [OF cq])
  qed
qed

lemma resultInv_dispatch: "resultInv s \<Longrightarrow> resultInv (dispatch cfg s e)"
proof -
  assume inv: "resultInv s"
  show ?thesis
  proof (cases "activeGameRendered cfg s")
    case False
    then show ?thesis using inv by (simp add: dispatch_def)
  next
    case True
    with inv have "phase s = Playing"
      by (cases "phase s") (auto simp: resultInv_def activeGameRendered_def)
    then show ?thesis using True by (simp add: dispatch_def resultInv_submit)
  qed
qed

lemma resultInv_session: "resultInv (session cfg rnd t0 s0 es)"
  unfolding session_def
  by (rule run_invariant) (simp_all add: resultInv_dispatch, simp add: resultInv_def)

subsection \<open>The result\<close>

text \<open>C7. In every session that has reached the results, the stored result carries the
  final counts of correct and incorrect answers and the accuracy is their quotient
  \<open>correct / (correct + wrong)\<close>. For any arguments \<open>endGame\<close> stores that quotient, and the
  finite number 0 (not \<open>NaN\<close>) when both counts are zero.\<close>

theorem accuracy_of_result:
  assumes "s = session cfg rnd t0 s0 es" and "phase s = Results"
  shows "(\<exists>r. sessionStats s = Some r
            \<and> correctAnswers_st r = correctAnswers s \<and> wrongAnswers_st r = wrongAnswers s
            \<and> accuracy_st r =
                Fin (of_nat (correctAnswers s) / of_nat (correctAnswers s + wrongAnswers s)))
       \<and> (\<forall>r. sessionStats (endGame cfg c p t b l ca wa q bs cs) = Some r \<longrightarrow>
             accuracy_st r =
               (if ca = 0 \<and> wa = 0 then Fin 0 else Fin (of_nat ca / of_nat (ca + wa))))"
proof -
  have "resultInv s" unfolding assms(1) by (rule resultInv_session)
  with assms(2) have first: "\<exists>r. sessionStats s = Some r
            \<and> correctAnswers_st r = correctAnswers s \<and> wrongAnswers_st r = wrongAnswers s
            \<and> accuracy_st r =
                Fin (of_nat (correctAnswers s) / of_nat (correctAnswers s + wrongAnswers s))"
    unfolding resultInv_def by blast
  have second: "\<forall>r. sessionStats (endGame cfg c p t b l ca wa q bs cs) = Some r \<longrightarrow>
             accuracy_st r =
               (if ca = 0 \<and> wa = 0 then Fin 0 else Fin (of_nat ca / of_nat (ca + wa)))"
    using endGame_accuracy [of cfg c p t b l ca wa q bs cs] by auto
  show ?thesis using first second by blast
qed

theorem accuracy_of_result_witness:
  "phase (session cfgAB (\<lambda>i. i) 1000 initialState
            [correctAt 1500, wrongAt 1600, correctAt 1700]) = Results
   \<and> (\<exists>r. sessionStats (session cfgAB (\<lambda>i. i) 1000 initialState
            [correctAt 1500, wrongAt 1600, correctAt 1700]) = Some r
          \<and> accuracy_st r = Fin (2 / 3) \<and> completed_st r)"
proof -
  define s where "s = session cfgAB (\<lambda>i. i) 1000 initialState
            [correctAt 1500, wrongAt 1600, correctAt 1700]"
  have p: "phase s = Results" unfolding s_def by code_simp
  have c: "correctAnswers s = 2" unfolding s_def by code_simp
  have w: "wrongAnswers s = 1" unfolding s_def by code_simp
  have d: "map_option completed_st (sessionStats s) = Some True" unfolding s_def by code_simp
  from accuracy_of_result [OF s_def p]
  show ?thesis using p c w d unfolding s_def [symmetric] by auto
qed

subsection \<open>Answer times\<close>

lemma js_min_Min: "xs \<noteq> [] \<Longrightarrow> js_min xs = Min (set xs)"
  by (cases xs) (simp_all add: js_min_def flip: Min.set_eq_fold)

lemma js_max_Max: "xs \<noteq> [] \<Longrightarrow> js_max xs = Max (set xs)"
  by (cases xs) (simp_all add: js_max_def flip: Max.set_eq_fold)

lemma submit_answerTimes:
  "currentQuestion s \<noteq> None \<Longrightarrow>
   answerTimes (submitAnswer cfg s e) =
     (if 0 < lastAnswerTime s \<and> 0 < now e - lastAnswerTime s
      then answerTimes s @ [now e - lastAnswerTime s] else answerTimes s)"
  by (auto simp: submit_defs recordAnswerTime_def)

lemma submit_lastAnswerTime:
  "currentQuestion s \<noteq> None \<Longrightarrow> lastAnswerTime (submitAnswer cfg s e) = now e"
  by (auto simp: submit_defs)

lemma endGame_timing_stats:
  "\<exists>r. sessionStats (endGame cfg c p t b l ca wa q bs cs) = Some r
     \<and> averageTimePerQuestionMs_st r =
         (if validAnswerTimes c = [] then Fin 0
          else Fin (of_int (sum_list (validAnswerTimes c))
                    / of_nat (length (validAnswerTimes c))))
     \<and> fastestAnswerMs_st r =
         (if validAnswerTimes c = [] then 0 else Min (set (validAnswerTimes c)))
     \<and> slowestAnswerMs_st r =
         (if validAnswerTimes c = [] then 0 else Max (set (validAnswerTimes c)))"
  by (simp add: endGame_def Let_def js_div_def js_min_Min js_max_Max validAnswerTimes_def)

text \<open>C8 (amended). \<open>handleStart\<close> sets \<open>lastAnswerTime\<close> to the start time, so every
  \<open>submitAnswer\<close> on a current question, the first one included, records the time elapsed
  since the previous answer (since the start, for the first) when \<open>lastAnswerTime\<close> is
  positive and the elapsed time is strictly positive, and records nothing otherwise.
  \<open>endGame\<close> computes the average, fastest and slowest time over the strictly positive
  entries of the answer times it is given, and 0 when there are none.\<close>

theorem answer_time_recording:
  assumes "currentQuestion s \<noteq> None"
  shows "lastAnswerTime (handleStart cfg rnd t0 s0) = t0
       \<and> answerTimes (handleStart cfg rnd t0 s0) = []
       \<and> answerTimes (submitAnswer cfg s e) =
           (if 0 < lastAnswerTime s \<and> 0 < now e - lastAnswerTime s
            then answerTimes s @ [now e - lastAnswerTime s] else answerTimes s)
       \<and> lastAnswerTime (submitAnswer cfg s e) = now e
       \<and> (\<exists>r. sessionStats (endGame cfg c p t b l ca wa q bs cs) = Some r
             \<and> averageTimePerQuestionMs_st r =
                 (if validAnswerTimes c = [] then Fin 0
                  else Fin (of_int (sum_list (validAnswerTimes c))
                            / of_nat (length (validAnswerTimes c))))
             \<and> fastestAnswerMs_st r =
                 (if validAnswerTimes c = [] then 0 else Min (set (validAnswerTimes c)))
             \<and> slowestAnswerMs_st r =
                 (if validAnswerTimes c = [] then 0 else Max (set (validAnswerTimes c))))"
  using assms endGame_timing_stats [of cfg c p t b l ca wa q bs cs]
  by (simp add: submit_answerTimes submit_lastAnswerTime)

theorem answer_time_recording_witness:
  "currentQuestion (session cfgAB (\<lambda>i. i) 1000 initialState [correctAt 1500]) \<noteq> None
   \<and> answerTimes (session cfgAB (\<lambda>i. i) 1000 initialState [correctAt 1500]) = [500]
   \<and> answerTimes (submitAnswer cfgAB
        (session cfgAB (\<lambda>i. i) 1000 initialState [correctAt 1500]) (correctAt 1700)) = [500, 200]
   \<and> answerTimes (submitAnswer cfgAB
        (session cfgAB (\<lambda>i. i) 1000 initialState [correctAt 1500]) (correctAt 1400)) = [500]
   \<and> (\<exists>r. sessionStats (endGame cfgAB (initialState\<lparr>answerTimes := [500, 0, 200]\<rparr>)
              initialState 1700 True 3 2 0 2 2 2) = Some r
          \<and> averageTimePerQuestionMs_st r = Fin 350
          \<and> fastestAnswerMs_st r = 200 \<and> slowestAnswerMs_st r = 500)"
proof -
  define s where "s = session cfgAB (\<lambda>i. i) 1000 initialState [correctAt 1500]"
  define c where "c = initialState\<lparr>answerTimes := [500, 0, 200]\<rparr>"
  have q: "currentQuestion s \<noteq> None" unfolding s_def by code_simp
  have a: "answerTimes s = [500]" unfolding s_def by code_simp
  have l: "lastAnswerTime s = 1500" unfolding s_def by code_simp
  have n: "now (correctAt 1700) = 1700" "now (correctAt 1400) = 1400"
    by (simp_all add: correctAt_def)
  have v: "validAnswerTimes c = [500, 200]" by (simp add: validAnswerTimes_def c_def)
  from answer_time_recording [OF q, of cfgAB "\<lambda>i. i" 1000 initialState "correctAt 1700"
      c initialState 1700 True 3 2 0 2 2 2]
  have late: "answerTimes (submitAnswer cfgAB s (correctAt 1700)) = [500, 200]"
    and stats: "\<exists>r. sessionStats (endGame cfgAB c initialState 1700 True 3 2 0 2 2 2) = Some r
          \<and> averageTimePerQuestionMs_st r = Fin 350
          \<and> fastestAnswerMs_st r = 200 \<and> slowestAnswerMs_st r = 500"
    using a l n v by simp_all
  from answer_time_recording [OF q, of cfgAB "\<lambda>i. i" 1000 initialState "correctAt 1400"]
  have early: "answerTimes (submitAnswer cfgAB s (correctAt 1400)) = [500]"
    using a l n by simp
  show ?thesis
    unfolding s_def [symmetric] c_def [symmetric] using q a late early stats by simp
qed

text \<open>C8 as stated fails: in a session started at clock reading 1000, the first answer,
  given at 1500, records the duration 500.\<close>

theorem first_answer_time_counterexample:
  "answerTimes (session cfgAB (\<lambda>i. i) 1000 initialState []) = []
   \<and> answerTimes (session cfgAB (\<lambda>i. i) 1000 initialState [correctAt 1500]) = [500]"
  by code_simp

text \<open>Which answer times reach \<open>endGame\<close> is a defect of the code, and no part of C8 as
  amended. \<open>submitAnswer\<close> records the duration of the final answer with a queued update
  and then calls \<open>endGame\<close>, whose closure still holds the answer times of the last render:
  the counters are passed as arguments "to avoid stale closure issues", the answer times
  are not. Two questions answered correctly at 1500 and 1600: the durations 500 and 100
  are recorded, the statistics are those of 500 alone.\<close>

lemma final_duration_missing_from_statistics:
  "answerTimes (sessionEvents cfgAB (\<lambda>i. i) 1000 initialState twoCorrect) = [500, 100]
   \<and> map_option averageTimePerQuestionMs_st
        (sessionStats (sessionEvents cfgAB (\<lambda>i. i) 1000 initialState twoCorrect))
       = Some (Fin 500)
   \<and> map_option slowestAnswerMs_st
        (sessionStats (sessionEvents cfgAB (\<lambda>i. i) 1000 initialState twoCorrect)) = Some 500
   \<and> map_option fastestAnswerMs_st
        (sessionStats (sessionEvents cfgAB (\<lambda>i. i) 1000 initialState twoCorrect)) = Some 500"
  by code_simp

subsection \<open>Regeneration\<close>

lemma calculateRegenThreshold_ceiling:
  "calculateRegenThreshold n = max 5 (min 20 (nat \<lceil>real n * (1 / 10)\<rceil>))"
proof -
  have "\<lceil>real n * (1 / 10)\<rceil> = \<lceil>real_of_int (int n) / real_of_int 10\<rceil>" by simp
  also have "\<dots> = - (- int n div 10)" by (rule ceiling_divide_eq_div)
  also have "\<dots> = int ((n + 9) div 10)" by (simp add: zdiv_int)
  finally show ?thesis by (simp add: calculateRegenThreshold_def)
qed

lemma regenThreshold_dispatch [simp]: "regenThreshold (dispatch cfg s e) = regenThreshold s"
  by (simp add: dispatch_def)

lemma regenThreshold_session:
  "regenThreshold (session cfg rnd t0 s0 es) = calculateRegenThreshold (totalQuestions cfg)"
  unfolding session_def
  by (rule run_invariant) simp_all

lemma currentQuestionI:
  "currentIndex s < length (questionQueue s) \<Longrightarrow> currentQuestion s \<noteq> None"
  by (simp add: currentQuestion_def)

lemma correct_streak_below_threshold:
  assumes "phase s = Playing" "items cfg \<noteq> []" "diff_regenerates cfg"
    and "0 < lives s" "lives s < maxLives s"
    and "\<forall>e \<in> set es. isCorrect e"
    and "correctSinceLastRegen s + length es < regenThreshold s"
    and "currentIndex s + length es \<le> length (questionQueue s)"
    and "correctAnswers s + length es < totalQuestions cfg"
  shows "phase (run cfg s es) = Playing
       \<and> lives (run cfg s es) = lives s
       \<and> maxLives (run cfg s es) = maxLives s
       \<and> regenThreshold (run cfg s es) = regenThreshold s
       \<and> correctSinceLastRegen (run cfg s es) = correctSinceLastRegen s + length es
       \<and> livesRegenerated (run cfg s es) = livesRegenerated s
       \<and> currentIndex (run cfg s es) = currentIndex s + length es
       \<and> length (questionQueue (run cfg s es)) = length (questionQueue s)
       \<and> correctAnswers (run cfg s es) = correctAnswers s + length es"
  using assms(6-9)
proof (induction es rule: rev_induct)
  case Nil
  show ?case using assms(1) by simp
next
  case (snoc e es)
  define s' where "s' = run cfg s es"
  from snoc.prems have pre: "\<forall>e \<in> set es. isCorrect e"
    "correctSinceLastRegen s + length es < regenThreshold s"
    "currentIndex s + length es \<le> length (questionQueue s)"
    "correctAnswers s + length es < totalQuestions cfg" by auto
  note ih = snoc.IH [OF pre, folded s'_def]
  from snoc.prems have e: "isCorrect e" by simp
  have render: "activeGameRendered cfg s'"
    using ih assms(2) by (simp add: activeGameRendered_def)
  have cq: "currentQuestion s' \<noteq> None"
    by (rule currentQuestionI) (use ih snoc.prems(3) in simp)
  have noend: "\<not> endsGame cfg s' e"
    using ih e assms(4) snoc.prems(4) by (simp add: endsGame_def)
  have nofire: "\<not> regenFires cfg s'"
    using ih snoc.prems(2) by (simp add: regenFires_def)
  have step: "run cfg s (es @ [e]) = answerToCompletion cfg s' e"
    using render by (simp add: s'_def dispatch_def)
  show ?case
    unfolding step
    using ih e noend nofire assms(3,5)
    by (simp add: submit_phase [OF cq] submit_lives [OF cq] submit_currentIndex [OF cq]
        submit_correctSinceLastRegen [OF cq] submit_livesRegenerated [OF cq]
        submit_queue_length [OF cq] submit_correctAnswers [OF cq] regenFires_def)
qed

lemma correct_streak_reaches_threshold:
  assumes "phase s = Playing" "items cfg \<noteq> []" "diff_regenerates cfg"
    and "0 < lives s" "lives s < maxLives s"
    and "\<forall>e \<in> set es. isCorrect e"
    and "correctSinceLastRegen s = 0" "length es = regenThreshold s" "0 < regenThreshold s"
    and "currentIndex s + length es \<le> length (questionQueue s)"
    and "correctAnswers s + length es \<le> totalQuestions cfg"
  shows "lives (run cfg s es) = lives s + 1
       \<and> correctSinceLastRegen (run cfg s es) = 0
       \<and> livesRegenerated (run cfg s es) = livesRegenerated s + 1"
proof -
  from assms(8,9) obtain es' e where es: "es = es' @ [e]"
    by (cases es rule: rev_cases) auto
  define s' where "s' = run cfg s es'"
  have len: "length es' + 1 = regenThreshold s" using assms(8) es by simp
  have pre: "\<forall>e \<in> set es'. isCorrect e"
    "correctSinceLastRegen s + length es' < regenThreshold s"
    "currentIndex s + length es' \<le> length (questionQueue s)"
    "correctAnswers s + length es' < totalQuestions cfg"
    using assms(6,7,10,11) es len by auto
  note ih = correct_streak_below_threshold [OF assms(1-5) pre, folded s'_def]
  have e: "isCorrect e" using assms(6) es by simp
  have render: "activeGameRendered cfg s'"
    using ih assms(2) by (simp add: activeGameRendered_def)
  have cq: "currentQuestion s' \<noteq> None"
    by (rule currentQuestionI) (use ih assms(10) es in simp)
  have fire: "regenFires cfg s'"
    using ih assms(3,5,7) len by (simp add: regenFires_def)
  have step: "run cfg s es = answerToCompletion cfg s' e"
    using render by (simp add: es s'_def dispatch_def)
  show ?thesis
    unfolding step
    using ih e fire assms(3,5,7) len
    by (simp add: submit_lives [OF cq] submit_correctSinceLastRegen [OF cq]
        submit_livesRegenerated [OF cq] regenFires_def)
qed

text \<open>C6. The threshold of a session is \<open>calculateRegenThreshold\<close> of the number of
  questions, set by \<open>handleStart\<close> and changed by no answer; it is the ceiling of a tenth of
  that number, clamped to 5..20 (10 for 100 questions). A correct answer given while the
  difficulty regenerates and lives are below \<open>maxLives\<close> adds one to the counter, and when
  that reaches the threshold it restores exactly one life, resets the counter and counts
  the regeneration; an incorrect answer resets the counter. Starting below \<open>maxLives\<close> with
  the counter at 0, a run of correct answers as long as the threshold restores one life
  at its last answer and none before.\<close>

theorem life_regeneration:
  assumes "s = session cfg rnd t0 s0 es0"
  shows "regenThreshold s = calculateRegenThreshold (totalQuestions cfg)
       \<and> calculateRegenThreshold n = max 5 (min 20 (nat \<lceil>real n * (1 / 10)\<rceil>))
       \<and> calculateRegenThreshold 100 = 10
       \<and> (activeGameRendered cfg s \<and> currentQuestion s \<noteq> None \<longrightarrow>
            (isCorrect e \<and> diff_regenerates cfg \<and> lives s < maxLives s \<longrightarrow>
               (if regenThreshold s \<le> correctSinceLastRegen s + 1
                then lives (dispatch cfg s e) = lives s + 1
                   \<and> correctSinceLastRegen (dispatch cfg s e) = 0
                   \<and> livesRegenerated (dispatch cfg s e) = livesRegenerated s + 1
                else lives (dispatch cfg s e) = lives s
                   \<and> correctSinceLastRegen (dispatch cfg s e) = correctSinceLastRegen s + 1
                   \<and> livesRegenerated (dispatch cfg s e) = livesRegenerated s))
          \<and> (isCorrect e \<and> \<not> (diff_regenerates cfg \<and> lives s < maxLives s) \<longrightarrow>
               lives (dispatch cfg s e) = lives s
               \<and> correctSinceLastRegen (dispatch cfg s e) = correctSinceLastRegen s
               \<and> livesRegenerated (dispatch cfg s e) = livesRegenerated s)
          \<and> (\<not> isCorrect e \<longrightarrow>
               correctSinceLastRegen (dispatch cfg s e) = 0
               \<and> livesRegenerated (dispatch cfg s e) = livesRegenerated s))
       \<and> (phase s = Playing \<and> items cfg \<noteq> [] \<and> diff_regenerates cfg
            \<and> 0 < lives s \<and> lives s < maxLives s \<and> correctSinceLastRegen s = 0
            \<and> (\<forall>e \<in> set es. isCorrect e) \<and> length es = regenThreshold s
            \<and> currentIndex s + length es \<le> length (questionQueue s)
            \<and> correctAnswers s + length es \<le> totalQuestions cfg \<longrightarrow>
          lives (run cfg s es) = lives s + 1
          \<and> correctSinceLastRegen (run cfg s es) = 0
          \<and> livesRegenerated (run cfg s es) = livesRegenerated s + 1
          \<and> (\<forall>k < length es.
                lives (run cfg s (take k es)) = lives s
                \<and> correctSinceLastRegen (run cfg s (take k es)) = k
                \<and> livesRegenerated (run cfg s (take k es)) = livesRegenerated s))"
proof -
  have thr: "regenThreshold s = calculateRegenThreshold (totalQuestions cfg)"
    unfolding assms by (rule regenThreshold_session)
  have hundred: "calculateRegenThreshold 100 = 10"
    by (simp add: calculateRegenThreshold_def)
  have pos: "0 < regenThreshold s"
    unfolding thr by (simp add: calculateRegenThreshold_def)
  have step: "(isCorrect e \<and> diff_regenerates cfg \<and> lives s < maxLives s \<longrightarrow>
               (if regenThreshold s \<le> correctSinceLastRegen s + 1
                then lives (dispatch cfg s e) = lives s + 1
                   \<and> correctSinceLastRegen (dispatch cfg s e) = 0
                   \<and> livesRegenerated (dispatch cfg s e) = livesRegenerated s + 1
                else lives (dispatch cfg s e) = lives s
                   \<and> correctSinceLastRegen (dispatch cfg s e) = correctSinceLastRegen s + 1
                   \<and> livesRegenerated (dispatch cfg s e) = livesRegenerated s))
          \<and> (isCorrect e \<and> \<not> (diff_regenerates cfg \<and> lives s < maxLives s) \<longrightarrow>
               lives (dispatch cfg s e) = lives s
               \<and> correctSinceLastRegen (dispatch cfg s e) = correctSinceLastRegen s
               \<and> livesRegenerated (dispatch cfg s e) = livesRegenerated s)
          \<and> (\<not> isCorrect e \<longrightarrow>
               correctSinceLastRegen (dispatch cfg s e) = 0
               \<and> livesRegenerated (dispatch cfg s e) = livesRegenerated s)"
    if "activeGameRendered cfg s" and cq: "currentQuestion s \<noteq> None"
    using that(1)
    by (simp add: dispatch_def submit_lives [OF cq] submit_correctSinceLastRegen [OF cq]
        submit_livesRegenerated [OF cq] regenFires_def)
  have streak: "lives (run cfg s es) = lives s + 1
          \<and> correctSinceLastRegen (run cfg s es) = 0
          \<and> livesRegenerated (run cfg s es) = livesRegenerated s + 1
          \<and> (\<forall>k < length es.
                lives (run cfg s (take k es)) = lives s
                \<and> correctSinceLastRegen (run cfg s (take k es)) = k
                \<and> livesRegenerated (run cfg s (take k es)) = livesRegenerated s)"
    if h: "phase s = Playing" "items cfg \<noteq> []" "diff_regenerates cfg"
      "0 < lives s" "lives s < maxLives s" "correctSinceLastRegen s = 0"
      "\<forall>e \<in> set es. isCorrect e" "length es = regenThreshold s"
      "currentIndex s + length es \<le> length (questionQueue s)"
      "correctAnswers s + length es \<le> totalQuestions cfg"
  proof -
    have last: "lives (run cfg s es) = lives s + 1
          \<and> correctSinceLastRegen (run cfg s es) = 0
          \<and> livesRegenerated (run cfg s es) = livesRegenerated s + 1"
      by (rule correct_streak_reaches_threshold [OF h(1-5) h(7) h(6) h(8) pos h(9,10)])
    have before: "lives (run cfg s (take k es)) = lives s
                \<and> correctSinceLastRegen (run cfg s (take k es)) = k
                \<and> livesRegenerated (run cfg s (take k es)) = livesRegenerated s"
      if k: "k < length es" for k
    proof -
      have a: "\<forall>e \<in> set (take k es). isCorrect e"
        using h(7) by (meson in_set_takeD)
      have l: "length (take k es) = k" using k by simp
      have b: "correctSinceLastRegen s + length (take k es) < regenThreshold s"
        using k h(6,8) l by simp
      have c: "currentIndex s + length (take k es) \<le> length (questionQueue s)"
        using k h(9) l by simp
      have d: "correctAnswers s + length (take k es) < totalQuestions cfg"
        using k h(10) l by simp
      from correct_streak_below_threshold [OF h(1-5) a b c d] show ?thesis
        using h(6) l by simp
    qed
    show ?thesis using last before by blast
  qed
  show ?thesis
    using thr calculateRegenThreshold_ceiling [of n] hundred step streak by blast
qed

theorem life_regeneration_witness:
  "lives (session cfg100 (\<lambda>i. i) 1000 initialState [wrongAt 1500]) = 2
   \<and> regenThreshold (session cfg100 (\<lambda>i. i) 1000 initialState [wrongAt 1500]) = 10
   \<and> lives (run cfg100 (session cfg100 (\<lambda>i. i) 1000 initialState [wrongAt 1500])
             (take 9 tenCorrect)) = 2
   \<and> correctSinceLastRegen (run cfg100 (session cfg100 (\<lambda>i. i) 1000 initialState [wrongAt 1500])
             (take 9 tenCorrect)) = 9
   \<and> lives (run cfg100 (session cfg100 (\<lambda>i. i) 1000 initialState [wrongAt 1500])
             tenCorrect) = 3
   \<and> correctSinceLastRegen (run cfg100 (session cfg100 (\<lambda>i. i) 1000 initialState [wrongAt 1500])
             tenCorrect) = 0
   \<and> livesRegenerated (run cfg100 (session cfg100 (\<lambda>i. i) 1000 initialState [wrongAt 1500])
             tenCorrect) = 1"
proof -
  define h where "h = handleStart cfg100 (\<lambda>i. i) 1000 initialState"
  define s where "s = session cfg100 (\<lambda>i. i) 1000 initialState [wrongAt 1500]"
  have n: "totalQuestions cfg100 = 100" by (simp add: totalQuestions_def cfg100_def)
  have i: "items cfg100 \<noteq> []" by (simp add: cfg100_def)
  have g: "diff_regenerates cfg100" by (simp add: cfg100_def)
  have d: "diff_lives cfg100 = 3" by (simp add: cfg100_def)
  have hq: "currentQuestion h \<noteq> None"
    by (rule currentQuestionI) (simp add: h_def n)
  have w: "\<not> isCorrect (wrongAt 1500)" by (simp add: wrongAt_def)
  have sh: "s = answerToCompletion cfg100 h (wrongAt 1500)"
    using i by (simp add: s_def session_def h_def dispatch_def activeGameRendered_def)
  have ne: "\<not> endsGame cfg100 h (wrongAt 1500)"
    using w d by (simp add: endsGame_def h_def)
  have p: "phase s = Playing"
    unfolding sh submit_phase [OF hq] using ne by (simp add: h_def)
  have l: "lives s = 2" unfolding sh submit_lives [OF hq] using w d by (simp add: h_def)
  have m: "maxLives s = 3" unfolding sh using d by (simp add: h_def)
  have c: "correctSinceLastRegen s = 0"
    unfolding sh submit_correctSinceLastRegen [OF hq] using w by simp
  have r: "livesRegenerated s = 0"
    unfolding sh submit_livesRegenerated [OF hq] using w by (simp add: h_def)
  have t: "regenThreshold s = 10"
    unfolding sh by (simp add: h_def n calculateRegenThreshold_def)
  have x: "currentIndex s = 1"
    unfolding sh submit_currentIndex [OF hq] using ne by (simp add: h_def)
  have q: "length (questionQueue s) = 101"
    unfolding sh submit_queue_length [OF hq] using ne w by (simp add: h_def n)
  have a: "correctAnswers s = 0"
    unfolding sh submit_correctAnswers [OF hq] using w by (simp add: h_def)
  have es: "\<forall>e \<in> set tenCorrect. isCorrect e" "length tenCorrect = 10"
    by (simp_all add: tenCorrect_def correctAt_def)
  from life_regeneration [OF s_def, of 100 undefined tenCorrect]
  show ?thesis
    unfolding s_def [symmetric] using p i g l m c r t x q a n es by simp
qed

subsection \<open>The counters of a session\<close>

lemma playInv_start:
  assumes "items cfg \<noteq> []" "0 < repetitions cfg" "0 < diff_lives cfg"
  shows "playInv cfg (handleStart cfg rnd t0 s0)"
proof -
  have "0 < totalQuestions cfg" using assms(1,2) by (simp add: totalQuestions_def)
  then show ?thesis
    using assms(3) by (simp add: playInv_def calculateRegenThreshold_def)
qed

lemma playInv_submit:
  assumes inv: "playInv cfg s" and play: "phase s = Playing"
  shows "playInv cfg (answerToCompletion cfg s e)"
proof (cases "currentQuestion s")
  case None
  then show ?thesis using inv by (simp add: answerToCompletion_no_question)
next
  case (Some q)
  then have cq: "currentQuestion s \<noteq> None" by simp
  from inv play have facts:
    "0 < lives s" "maxLives s = diff_lives cfg"
    "lives s = diff_lives cfg - int (wrongAnswers s) + int (livesRegenerated s)"
    "5 * livesRegenerated s + min (correctSinceLastRegen s) 5 \<le> correctAnswers s"
    "5 \<le> regenThreshold s"
    "correctAnswers s < totalQuestions cfg"
    "currentIndex s = correctAnswers s + wrongAnswers s"
    "length (questionQueue s) = totalQuestions cfg + min (wrongAnswers s) (2 * totalQuestions cfg)"
    by (simp_all add: playInv_def)
  show ?thesis
  proof (cases "endsGame cfg s e")
    case True
    then show ?thesis
      using submit_sessionStats_ends [OF cq True]
      by (simp add: playInv_def submit_phase [OF cq])
  next
    case False
    have ph: "phase (answerToCompletion cfg s e) = Playing"
      using False play by (simp add: submit_phase [OF cq])
    show ?thesis
    proof (cases "isCorrect e")
      case True
      with False have c: "correctAnswers s + 1 < totalQuestions cfg"
        by (simp add: endsGame_def)
      show ?thesis
        unfolding playInv_def ph
        using True False facts c
        by (simp add: submit_lives [OF cq] submit_correctAnswers [OF cq]
            submit_wrongAnswers [OF cq] submit_currentIndex [OF cq]
            submit_correctSinceLastRegen [OF cq] submit_livesRegenerated [OF cq]
            submit_queue_length [OF cq] regenFires_def) arith
    next
      case wrong: False
      with False have l: "1 < lives s" by (simp add: endsGame_def)
      show ?thesis
        unfolding playInv_def ph
        using wrong False facts l
        by (simp add: submit_lives [OF cq] submit_correctAnswers [OF cq]
            submit_wrongAnswers [OF cq] submit_currentIndex [OF cq]
            submit_correctSinceLastRegen [OF cq] submit_livesRegenerated [OF cq]
            submit_queue_length [OF cq] regenFires_def) 
    qed
  qed
qed

lemma playInv_rendered: "playInv cfg s \<Longrightarrow> activeGameRendered cfg s \<Longrightarrow> phase s = Playing"
  by (cases "phase s") (auto simp: playInv_def activeGameRendered_def)

lemma playInv_dispatch: "playInv cfg s \<Longrightarrow> playInv cfg (dispatch cfg s e)"
  by (simp add: dispatch_def playInv_submit playInv_rendered)

lemma playInv_run: "playInv cfg s \<Longrightarrow> playInv cfg (run cfg s es)"
  by (rule run_invariant) (simp_all add: playInv_dispatch)

lemma playInv_session:
  assumes "items cfg \<noteq> []" "0 < repetitions cfg" "0 < diff_lives cfg"
  shows "playInv cfg (session cfg rnd t0 s0 es)"
  unfolding session_def by (rule playInv_run) (rule playInv_start [OF assms])

lemma playInv_current:
  assumes "playInv cfg s" "withinRequeueBudget cfg" "phase s = Playing"
  shows "currentIndex s < length (questionQueue s)"
proof -
  from assms(1,3) have facts:
    "0 < lives s"
    "lives s = diff_lives cfg - int (wrongAnswers s) + int (livesRegenerated s)"
    "5 * livesRegenerated s + min (correctSinceLastRegen s) 5 \<le> correctAnswers s"
    "correctAnswers s < totalQuestions cfg"
    "currentIndex s = correctAnswers s + wrongAnswers s"
    "length (questionQueue s) = totalQuestions cfg + min (wrongAnswers s) (2 * totalQuestions cfg)"
    by (simp_all add: playInv_def)
  from facts(3) have r: "5 * livesRegenerated s \<le> correctAnswers s" by simp
  with facts(4) have r2: "livesRegenerated s \<le> (totalQuestions cfg - 1) div 5" by arith
  show ?thesis
    using facts(1,2,4,5,6) r2 assms(2) unfolding withinRequeueBudget_def
    by (cases "wrongAnswers s \<le> 2 * totalQuestions cfg") (simp_all add: min_def)
qed

lemma three_lives_within_budget:
  assumes "items cfg \<noteq> []" "0 < repetitions cfg" "diff_lives cfg \<le> 3"
  shows "withinRequeueBudget cfg"
proof -
  have "0 < totalQuestions cfg" using assms(1,2) by (simp add: totalQuestions_def)
  then show ?thesis using assms(3) by (simp add: withinRequeueBudget_def)
qed

subsection \<open>The current question\<close>

lemma playInv_at_cap:
  assumes "playInv cfg s" "withinRequeueBudget cfg" "phase s = Playing"
    and "0 < totalQuestions cfg" "length (questionQueue s) = 3 * totalQuestions cfg"
  shows "lives s = 1"
proof -
  from assms(1,3) have facts:
    "0 < lives s"
    "lives s = diff_lives cfg - int (wrongAnswers s) + int (livesRegenerated s)"
    "5 * livesRegenerated s + min (correctSinceLastRegen s) 5 \<le> correctAnswers s"
    "correctAnswers s < totalQuestions cfg"
    "length (questionQueue s) = totalQuestions cfg + min (wrongAnswers s) (2 * totalQuestions cfg)"
    by (simp_all add: playInv_def)
  from facts(3) have r: "5 * livesRegenerated s \<le> correctAnswers s" by simp
  with facts(4) have r2: "livesRegenerated s \<le> (totalQuestions cfg - 1) div 5" by arith
  from facts(5) assms(4,5) have w: "2 * totalQuestions cfg \<le> wrongAnswers s"
    by (simp add: min_def split: if_splits)
  show ?thesis
    using facts(1,2) r2 w assms(2) unfolding withinRequeueBudget_def by simp
qed

text \<open>C9 (amended). Take a session in which no answer is submitted while a save is
  pending, started with a non-empty item list, a positive repetition count, and starting
  lives that are positive and within the re-queue budget (as every number of lives up to
  three is). In every state of it in the playing phase \<open>currentIndex\<close> is below the length
  of the queue, so a current question exists, also after any further answer. An incorrect
  answer that finds the queue at its cap finds exactly one life left: it ends the session
  and does not advance \<open>currentIndex\<close>.\<close>

theorem current_question_exists:
  assumes "items cfg \<noteq> []" and "0 < repetitions cfg" and "0 < diff_lives cfg"
    and "withinRequeueBudget cfg"
    and "s = session cfg rnd t0 s0 es" and "phase s = Playing"
  shows "currentIndex s < length (questionQueue s) \<and> currentQuestion s \<noteq> None
       \<and> (phase (dispatch cfg s e) = Playing \<longrightarrow>
            currentIndex (dispatch cfg s e) < length (questionQueue (dispatch cfg s e)))
       \<and> (\<not> isCorrect e \<and> length (questionQueue s) = 3 * totalQuestions cfg \<longrightarrow>
            lives s = 1 \<and> phase (dispatch cfg s e) = Results
            \<and> currentIndex (dispatch cfg s e) = currentIndex s)"
proof -
  have inv: "playInv cfg s"
    unfolding assms(5) by (rule playInv_session [OF assms(1-3)])
  have cur: "currentIndex s < length (questionQueue s)"
    by (rule playInv_current [OF inv assms(4,6)])
  have cq: "currentQuestion s \<noteq> None" by (rule currentQuestionI [OF cur])
  have "playInv cfg (dispatch cfg s e)" by (rule playInv_dispatch [OF inv])
  then have next_cur: "phase (dispatch cfg s e) = Playing \<longrightarrow>
            currentIndex (dispatch cfg s e) < length (questionQueue (dispatch cfg s e))"
    using playInv_current [OF _ assms(4)] by blast
  have n: "0 < totalQuestions cfg" using assms(1,2) by (simp add: totalQuestions_def)
  have d: "dispatch cfg s e = answerToCompletion cfg s e"
    using assms(1,6) by (simp add: dispatch_def activeGameRendered_def)
  have cap: "lives s = 1 \<and> phase (dispatch cfg s e) = Results
            \<and> currentIndex (dispatch cfg s e) = currentIndex s"
    if "\<not> isCorrect e" "length (questionQueue s) = 3 * totalQuestions cfg"
  proof -
    have one: "lives s = 1" by (rule playInv_at_cap [OF inv assms(4,6) n that(2)])
    then have "endsGame cfg s e" using that(1) by (simp add: endsGame_def)
    then show ?thesis
      using one by (simp add: d submit_phase [OF cq] submit_currentIndex [OF cq])
  qed
  show ?thesis using cur cq next_cur cap by blast
qed

theorem current_question_exists_witness:
  "items cfgOne \<noteq> [] \<and> 0 < repetitions cfgOne \<and> 0 < diff_lives cfgOne
   \<and> withinRequeueBudget cfgOne
   \<and> phase (session cfgOne (\<lambda>i. i) 1000 initialState [wrongAt 1500, wrongAt 1600]) = Playing
   \<and> currentIndex (session cfgOne (\<lambda>i. i) 1000 initialState [wrongAt 1500, wrongAt 1600]) = 2
   \<and> length (questionQueue
        (session cfgOne (\<lambda>i. i) 1000 initialState [wrongAt 1500, wrongAt 1600])) = 3
   \<and> lives (session cfgOne (\<lambda>i. i) 1000 initialState [wrongAt 1500, wrongAt 1600]) = 1
   \<and> phase (dispatch cfgOne
        (session cfgOne (\<lambda>i. i) 1000 initialState [wrongAt 1500, wrongAt 1600])
        (wrongAt 1700)) = Results
   \<and> currentIndex (dispatch cfgOne
        (session cfgOne (\<lambda>i. i) 1000 initialState [wrongAt 1500, wrongAt 1600])
        (wrongAt 1700)) = 2"
proof -
  define s where "s = session cfgOne (\<lambda>i. i) 1000 initialState [wrongAt 1500, wrongAt 1600]"
  have a: "items cfgOne \<noteq> []" "0 < repetitions cfgOne" "0 < diff_lives cfgOne"
    by (simp_all add: cfgOne_def)
  have b: "withinRequeueBudget cfgOne" by code_simp
  have p: "phase s = Playing" unfolding s_def by code_simp
  have x: "currentIndex s = 2" unfolding s_def by code_simp
  have l: "length (questionQueue s) = 3" unfolding s_def by code_simp
  have n: "3 * totalQuestions cfgOne = 3" by code_simp
  have w: "\<not> isCorrect (wrongAt 1700)" by (simp add: wrongAt_def)
  from current_question_exists [OF a b s_def p, of "wrongAt 1700"]
  show ?thesis unfolding s_def [symmetric] using a b p x l n w by simp
qed

text \<open>C9 as stated fails: a session started with a non-empty item list (one item, asked
  once) and four lives is, after three incorrect answers, still in the playing phase, with
  the queue at its cap of three entries and \<open>currentIndex\<close> past the last of them.\<close>

theorem current_question_counterexample:
  "items cfgFour \<noteq> []
   \<and> phase (session cfgFour (\<lambda>i. i) 1000 initialState
            [wrongAt 1500, wrongAt 1600, wrongAt 1700]) = Playing
   \<and> lives (session cfgFour (\<lambda>i. i) 1000 initialState
            [wrongAt 1500, wrongAt 1600, wrongAt 1700]) = 1
   \<and> currentIndex (session cfgFour (\<lambda>i. i) 1000 initialState
            [wrongAt 1500, wrongAt 1600, wrongAt 1700]) = 3
   \<and> length (questionQueue (session cfgFour (\<lambda>i. i) 1000 initialState
            [wrongAt 1500, wrongAt 1600, wrongAt 1700])) = 3
   \<and> currentQuestion (session cfgFour (\<lambda>i. i) 1000 initialState
            [wrongAt 1500, wrongAt 1600, wrongAt 1700]) = None"
  by code_simp

subsection \<open>Termination\<close>

lemma playInv_frozen:
  assumes "playInv cfg s" "phase s = Results"
  shows "dispatch cfg s e = s"
  using assms by (simp add: dispatch_def activeGameRendered_def playInv_def)

lemma playInv_frozen_run:
  assumes "playInv cfg s" "phase s = Results"
  shows "run cfg s es = s"
  by (induction es) (simp_all add: playInv_frozen [OF assms])

lemma resultsTransitions_eq:
  assumes "playInv cfg s"
  shows "resultsTransitions cfg s es =
           (if phase s = Playing \<and> phase (run cfg s es) = Results then 1 else 0)"
  using assms
proof (induction es arbitrary: s)
  case Nil
  then show ?case by simp
next
  case (Cons e es)
  have inv': "playInv cfg (dispatch cfg s e)" by (rule playInv_dispatch [OF Cons.prems])
  note ih = Cons.IH [OF inv']
  show ?case
  proof (cases "phase (dispatch cfg s e) = Results")
    case True
    then show ?thesis
      using ih playInv_frozen_run [OF inv' True, of es] by simp
  next
    case False
    with inv' have play': "phase (dispatch cfg s e) = Playing"
      by (cases "phase (dispatch cfg s e)") (simp_all add: playInv_def)
    have "phase s = Playing"
    proof (rule ccontr)
      assume "phase s \<noteq> Playing"
      with Cons.prems have "phase s = Results"
        by (cases "phase s") (simp_all add: playInv_def)
      from playInv_frozen [OF Cons.prems this, of e] this play' show False by simp
    qed
    then show ?thesis using ih play' by simp
  qed
qed

lemma raw_completed:
  "currentQuestion s \<noteq> None \<Longrightarrow> endsGame cfg s e \<Longrightarrow>
   completedFlag (submitAnswer cfg s e) = Some (isCorrect e \<and> 0 < lives s)"
  by (auto simp: submit_defs completedFlag_def split: if_splits)

lemma submit_completed:
  "currentQuestion s \<noteq> None \<Longrightarrow> endsGame cfg s e \<Longrightarrow>
   completedFlag (answerToCompletion cfg s e) = Some (isCorrect e \<and> 0 < lives s)"
  using raw_completed [of s cfg e]
  by (simp add: answerToCompletion_eq completedFlag_def)

lemma progress_or_results:
  assumes inv: "playInv cfg s" and budget: "withinRequeueBudget cfg"
    and idx: "phase s = Playing \<longrightarrow> currentIndex s = k" and rend: "items cfg \<noteq> []"
  shows "phase (run cfg s es) = Playing \<longrightarrow> currentIndex (run cfg s es) = k + length es"
proof (induction es rule: rev_induct)
  case Nil
  show ?case using idx by simp
next
  case (snoc e es)
  define s' where "s' = run cfg s es"
  have inv': "playInv cfg s'" unfolding s'_def by (rule playInv_run [OF inv])
  show ?case
  proof (cases "phase s' = Playing")
    case True
    have cur: "currentIndex s' < length (questionQueue s')"
      by (rule playInv_current [OF inv' budget True])
    have cq: "currentQuestion s' \<noteq> None" by (rule currentQuestionI [OF cur])
    have "activeGameRendered cfg s'" using True rend by (simp add: activeGameRendered_def)
    then have step: "run cfg s (es @ [e]) = answerToCompletion cfg s' e"
      by (simp add: s'_def dispatch_def)
    show ?thesis
      unfolding step using snoc.IH True
      by (simp add: s'_def [symmetric] submit_phase [OF cq] submit_currentIndex [OF cq])
  next
    case False
    with inv' have "phase s' = Results"
      by (cases "phase s'") (simp_all add: playInv_def)
    from playInv_frozen [OF inv' this, of e] this show ?thesis
      by (simp add: s'_def [symmetric])
  qed
qed

lemma session_ends:
  assumes "items cfg \<noteq> []" "0 < repetitions cfg" "0 < diff_lives cfg"
    and "withinRequeueBudget cfg" and "3 * totalQuestions cfg \<le> length es"
  shows "phase (session cfg rnd t0 s0 es) = Results"
proof (rule ccontr)
  define s where "s = session cfg rnd t0 s0 es"
  assume "phase (session cfg rnd t0 s0 es) \<noteq> Results"
  moreover have inv: "playInv cfg s"
    unfolding s_def by (rule playInv_session [OF assms(1-3)])
  ultimately have play: "phase s = Playing"
    by (cases "phase s") (simp_all add: playInv_def s_def)
  have "currentIndex s = 0 + length es"
    using progress_or_results [OF playInv_start [OF assms(1-3)] assms(4) _ assms(1),
        of rnd t0 s0 0 es] play
    by (simp add: s_def session_def)
  moreover have "currentIndex s < length (questionQueue s)"
    by (rule playInv_current [OF inv assms(4) play])
  moreover have "length (questionQueue s) \<le> 3 * totalQuestions cfg"
    unfolding s_def by (rule queue_bound_session)
  ultimately show False using assms(5) by simp
qed

text \<open>As long as no answer is submitted while a save is pending: along the answers of
  a session the step from \<open>playing\<close> to \<open>results\<close> is taken at most once, and exactly once
  when the answers go on long enough (three times \<open>totalQuestions\<close> of them, with starting
  lives within the re-queue budget); in the results no answer is dispatched; and an answer
  to the current question ends the session with \<open>completed = false\<close> when it leaves no
  life, otherwise with \<open>completed = true\<close> when the correct answers have reached
  \<open>totalQuestions\<close>, and otherwise leaves it in \<open>playing\<close>.\<close>

lemma results_transition_one_at_a_time:
  assumes "items cfg \<noteq> []" and "0 < repetitions cfg" and "0 < diff_lives cfg"
    and "s = session cfg rnd t0 s0 es"
  shows "resultsTransitions cfg (handleStart cfg rnd t0 s0) es \<le> 1
       \<and> (withinRequeueBudget cfg \<and> 3 * totalQuestions cfg \<le> length es \<longrightarrow>
            resultsTransitions cfg (handleStart cfg rnd t0 s0) es = 1)
       \<and> (phase s = Results \<longrightarrow> dispatch cfg s e = s)
       \<and> (phase s = Playing \<and> currentQuestion s \<noteq> None \<longrightarrow>
            (lives (dispatch cfg s e) \<le> 0 \<longrightarrow>
               phase (dispatch cfg s e) = Results
               \<and> completedFlag (dispatch cfg s e) = Some False)
          \<and> (0 < lives (dispatch cfg s e)
               \<and> totalQuestions cfg \<le> correctAnswers (dispatch cfg s e) \<longrightarrow>
               phase (dispatch cfg s e) = Results
               \<and> completedFlag (dispatch cfg s e) = Some True)
          \<and> (0 < lives (dispatch cfg s e)
               \<and> correctAnswers (dispatch cfg s e) < totalQuestions cfg \<longrightarrow>
               phase (dispatch cfg s e) = Playing))"
proof -
  have start: "playInv cfg (handleStart cfg rnd t0 s0)"
    by (rule playInv_start [OF assms(1-3)])
  have inv: "playInv cfg s"
    unfolding assms(4) by (rule playInv_session [OF assms(1-3)])
  have count: "resultsTransitions cfg (handleStart cfg rnd t0 s0) es =
      (if phase s = Results then 1 else 0)"
    by (simp add: resultsTransitions_eq [OF start] assms(4) session_def)
  have once: "resultsTransitions cfg (handleStart cfg rnd t0 s0) es \<le> 1"
    unfolding count by simp
  have ends: "resultsTransitions cfg (handleStart cfg rnd t0 s0) es = 1"
    if "withinRequeueBudget cfg" "3 * totalQuestions cfg \<le> length es"
    unfolding count using session_ends [OF assms(1-3) that] by (simp add: assms(4))
  have frozen: "dispatch cfg s e = s" if "phase s = Results"
    by (rule playInv_frozen [OF inv that])
  have branch: "(lives (dispatch cfg s e) \<le> 0 \<longrightarrow>
               phase (dispatch cfg s e) = Results
               \<and> completedFlag (dispatch cfg s e) = Some False)
          \<and> (0 < lives (dispatch cfg s e)
               \<and> totalQuestions cfg \<le> correctAnswers (dispatch cfg s e) \<longrightarrow>
               phase (dispatch cfg s e) = Results
               \<and> completedFlag (dispatch cfg s e) = Some True)
          \<and> (0 < lives (dispatch cfg s e)
               \<and> correctAnswers (dispatch cfg s e) < totalQuestions cfg \<longrightarrow>
               phase (dispatch cfg s e) = Playing)"
    if play: "phase s = Playing" and cq: "currentQuestion s \<noteq> None"
  proof -
    from inv play have facts: "0 < lives s" "correctAnswers s < totalQuestions cfg"
      by (simp_all add: playInv_def)
    have d: "dispatch cfg s e = answerToCompletion cfg s e"
      using play assms(1) by (simp add: dispatch_def activeGameRendered_def)
    show ?thesis
    proof (cases "endsGame cfg s e")
      case True
      show ?thesis
        unfolding d
        using True facts submit_completed [OF cq True] play
        by (auto simp: submit_phase [OF cq] submit_lives [OF cq]
            submit_correctAnswers [OF cq] endsGame_def regenFires_def split: if_splits)
    next
      case False
      show ?thesis
        unfolding d
        using False facts play
        by (auto simp: submit_phase [OF cq] submit_lives [OF cq]
            submit_correctAnswers [OF cq] endsGame_def regenFires_def split: if_splits)
    qed
  qed
  show ?thesis using once ends frozen branch by blast
qed

text \<open>The tests of \<open>advanceToNextQuestion\<close>, for all arguments: no life left ends the game
  as failed, whatever the count of correct answers; otherwise a correct answer that brings
  the count to \<open>totalQuestions\<close> ends it as completed; otherwise the game goes on.\<close>

lemma advance_tests_in_order:
  "newLives \<le> 0 \<Longrightarrow>
   advanceToNextQuestion cfg c p e newLives wasCorrect nc nw qc bs cs
     = endGame cfg c p (endNow e) False newLives nc nw qc bs cs"
  "0 < newLives \<Longrightarrow> wasCorrect \<Longrightarrow> totalQuestions cfg \<le> nc \<Longrightarrow>
   advanceToNextQuestion cfg c p e newLives wasCorrect nc nw qc bs cs
     = endGame cfg c p (endNow e) True newLives nc nw qc bs cs"
  "0 < newLives \<Longrightarrow> \<not> (wasCorrect \<and> totalQuestions cfg \<le> nc) \<Longrightarrow>
   pendingSaves (advanceToNextQuestion cfg c p e newLives wasCorrect nc nw qc bs cs)
     = pendingSaves p
   \<and> currentIndex (advanceToNextQuestion cfg c p e newLives wasCorrect nc nw qc bs cs)
     = currentIndex c + 1"
  by (auto simp: advanceToNextQuestion_def)

text \<open>C2 holds of the code only in such sessions. \<open>endGame\<close> sets the phase after the
  save it awaits, and until then the game screen stays rendered and \<open>submitAnswer\<close> runs
  unguarded. After three incorrect answers (three lives) the game has ended as failed with
  0 lives left; a fourth answer before the save resolves ends it a second time, with a
  second result (\<open>-1\<close> lives left, four incorrect answers) and a second save. After two
  correct answers (two questions) the game has ended as completed; an incorrect answer
  before the save resolves leaves lives and a reached target, and yet the game goes on:
  no further end, a re-queued entry, \<open>currentIndex\<close> advanced.\<close>

theorem termination_runs_twice:
  "phase (sessionEvents cfgAB (\<lambda>i. i) 1000 initialState threeWrong) = Playing
   \<and> pendingSaves (sessionEvents cfgAB (\<lambda>i. i) 1000 initialState threeWrong) = 1
   \<and> completedFlag (sessionEvents cfgAB (\<lambda>i. i) 1000 initialState threeWrong) = Some False
   \<and> map_option livesRemaining_st
        (sessionStats (sessionEvents cfgAB (\<lambda>i. i) 1000 initialState threeWrong)) = Some 0
   \<and> pendingSaves (sessionEvents cfgAB (\<lambda>i. i) 1000 initialState
        (threeWrong @ [Answer (wrongAt 1800)])) = 2
   \<and> map_option livesRemaining_st
        (sessionStats (sessionEvents cfgAB (\<lambda>i. i) 1000 initialState
           (threeWrong @ [Answer (wrongAt 1800)]))) = Some (- 1)
   \<and> map_option wrongAnswers_st
        (sessionStats (sessionEvents cfgAB (\<lambda>i. i) 1000 initialState
           (threeWrong @ [Answer (wrongAt 1800)]))) = Some 4
   \<and> phase (sessionEvents cfgAB (\<lambda>i. i) 1000 initialState
        (threeWrong @ [Answer (wrongAt 1800), SaveResolved])) = Results
   \<and> pendingSaves (sessionEvents cfgAB (\<lambda>i. i) 1000 initialState
        (threeWrong @ [Answer (wrongAt 1800), SaveResolved])) = 1
   \<and> totalQuestions cfgAB = 2
   \<and> correctAnswers (sessionEvents cfgAB (\<lambda>i. i) 1000 initialState twoCorrect) = 2
   \<and> completedFlag (sessionEvents cfgAB (\<lambda>i. i) 1000 initialState twoCorrect) = Some True
   \<and> pendingSaves (sessionEvents cfgAB (\<lambda>i. i) 1000 initialState twoCorrect) = 1
   \<and> currentIndex (sessionEvents cfgAB (\<lambda>i. i) 1000 initialState twoCorrect) = 1
   \<and> lives (sessionEvents cfgAB (\<lambda>i. i) 1000 initialState
        (twoCorrect @ [Answer (wrongAt 1700)])) = 2
   \<and> correctAnswers (sessionEvents cfgAB (\<lambda>i. i) 1000 initialState
        (twoCorrect @ [Answer (wrongAt 1700)])) = 2
   \<and> pendingSaves (sessionEvents cfgAB (\<lambda>i. i) 1000 initialState
        (twoCorrect @ [Answer (wrongAt 1700)])) = 1
   \<and> currentIndex (sessionEvents cfgAB (\<lambda>i. i) 1000 initialState
        (twoCorrect @ [Answer (wrongAt 1700)])) = 2
   \<and> length (questionQueue (sessionEvents cfgAB (\<lambda>i. i) 1000 initialState
        (twoCorrect @ [Answer (wrongAt 1700)]))) = 3"
  by code_simp

subsection \<open>The initial queue\<close>

lemma nth_swap:
  "a < length q \<Longrightarrow> b < length q \<Longrightarrow>
   swap q a b ! m = (if m = b then q ! a else if m = a then q ! b else q ! m)"
  by (simp add: swap_def nth_list_update)

lemma settled_swap_later:
  assumes "settled q k" and "k + 1 < a" "a < b" "b < length q"
  shows "settled (swap q a b) k"
proof -
  have al: "a < length q" using assms(3,4) by simp
  have k0: "swap q a b ! k = q ! k" and k1: "swap q a b ! (k + 1) = q ! (k + 1)"
    using assms(2,3) al assms(4) by (simp_all add: nth_swap)
  show ?thesis
  proof (cases "qid (q ! k) \<noteq> qid (q ! (k + 1))")
    case True
    then show ?thesis unfolding settled_def k0 k1 by (rule disjI1)
  next
    case False
    with assms(1) have all: "\<And>m. k < m \<Longrightarrow> m < length q \<Longrightarrow> qid (q ! m) = qid (q ! k)"
      unfolding settled_def by blast
    have ea: "qid (q ! a) = qid (q ! k)" by (rule all) (use assms(2) al in simp_all)
    have eb: "qid (q ! b) = qid (q ! k)" by (rule all) (use assms(2,3,4) in simp_all)
    have "qid (swap q a b ! m) = qid (q ! k)" if "k < m" "m < length q" for m
    proof -
      have "swap q a b ! m = (if m = b then q ! a else if m = a then q ! b else q ! m)"
        by (rule nth_swap [OF al assms(4)])
      then show ?thesis using ea eb all [OF that] by (simp split: if_splits)
    qed
    then show ?thesis unfolding settled_def k0 by simp
  qed
qed

lemma stabilizeLoop_settled:
  assumes "\<forall>k < i. settled q k"
  shows "\<forall>k. k + 1 < length q \<longrightarrow> settled (stabilizeLoop i q) k"
  using assms
proof (induction i q rule: stabilizeLoop.induct)
  case (1 i queue)
  show ?case
  proof (cases "i + 1 < length queue")
    case False
    then have "stabilizeLoop i queue = queue" by (subst stabilizeLoop.simps) simp
    with False "1.prems" show ?thesis by simp
  next
    case inrange: True
    show ?thesis
    proof (cases "qid (queue ! i) \<noteq> qid (queue ! (i + 1))")
      case True
      then have "settled queue i" by (simp add: settled_def)
      with "1.prems" have "\<forall>k < i + 1. settled queue k"
        by (simp add: less_Suc_eq)
      from "1.IH"(1) [OF inrange True this] show ?thesis
        using inrange True by (subst stabilizeLoop.simps) simp
    next
      case same: False
      show ?thesis
      proof (cases "findSwapIndex (qid (queue ! i)) (drop (i + 2) queue) (i + 2)")
        case None
        have "\<forall>m. i < m \<and> m < length queue \<longrightarrow> qid (queue ! m) = qid (queue ! i)"
        proof (intro allI impI)
          fix m assume m: "i < m \<and> m < length queue"
          show "qid (queue ! m) = qid (queue ! i)"
          proof (cases "m = i + 1")
            case True
            with same show ?thesis by simp
          next
            case False
            with m have "i + 2 \<le> m" by arith
            from findSwapIndex_drop_None [OF None this] m show ?thesis by simp
          qed
        qed
        then have "settled queue i" by (simp add: settled_def)
        with "1.prems" have "\<forall>k < i + 1. settled queue k"
          by (simp add: less_Suc_eq)
        from "1.IH"(2) [OF inrange same None this] show ?thesis
          using inrange same None by (subst stabilizeLoop.simps) simp
      next
        case (Some j)
        note found = findSwapIndex_drop_Some [OF Some]
        define q' where "q' = swap queue (i + 1) j"
        have jl: "j < length queue" and ij: "i + 2 \<le> j" using found by simp_all
        have i0: "q' ! i = queue ! i" and i1: "q' ! (i + 1) = queue ! j"
          using ij inrange jl by (simp_all add: q'_def nth_swap)
        have "settled q' i"
          unfolding settled_def i0 i1 using found(3) by simp
        moreover have "settled q' k" if "k < i" for k
          unfolding q'_def
          by (rule settled_swap_later) (use that "1.prems" ij jl in simp_all)
        ultimately have "\<forall>k < i + 1. settled q' k"
          by (simp add: less_Suc_eq)
        from "1.IH"(3) [OF inrange same Some this [unfolded q'_def]] show ?thesis
          using inrange same Some by (subst stabilizeLoop.simps) (simp add: q'_def)
      qed
    qed
  qed
qed

lemma setIndices_length [simp]: "length (setIndices q) = length q"
  by (simp add: setIndices_def)

lemma setIndices_qid [simp]: "k < length q \<Longrightarrow> qid (setIndices q ! k) = qid (q ! k)"
  by (simp add: setIndices_def qid_def nth_enumerate_eq)

lemma settled_setIndices:
  assumes "k + 1 < length q" "settled q k"
  shows "settled (setIndices q) k"
proof -
  have k0: "qid (setIndices q ! k) = qid (q ! k)"
    and k1: "qid (setIndices q ! (k + 1)) = qid (q ! (k + 1))"
    using assms(1) by simp_all
  show ?thesis
  proof (cases "qid (q ! k) \<noteq> qid (q ! (k + 1))")
    case True
    then show ?thesis unfolding settled_def k0 k1 by (rule disjI1)
  next
    case False
    with assms(2) have all: "\<And>m. k < m \<Longrightarrow> m < length q \<Longrightarrow> qid (q ! m) = qid (q ! k)"
      unfolding settled_def by blast
    have "qid (setIndices q ! m) = qid (q ! k)" if "k < m" "m < length q" for m
      using all [OF that] that(2) by simp
    then show ?thesis unfolding settled_def k0 by simp
  qed
qed

text \<open>C3 (amended). For every item list, repetition count and shuffle, two adjacent
  entries of the initial queue share an identity only in a trailing run: when entries
  \<open>k\<close> and \<open>k + 1\<close> share an identity, every later entry has that identity too (the
  forward search of the stabilization pass found no other entry to swap in).\<close>

theorem initial_queue_repeats_only_in_tail:
  assumes "queue = generateQuestionQueue rnd its reps" and "k + 1 < length queue"
    and "qid (queue ! k) = qid (queue ! (k + 1))"
  shows "\<forall>m. k < m \<and> m < length queue \<longrightarrow> qid (queue ! m) = qid (queue ! k)"
proof -
  define sh where "sh = fisherYates rnd (length (crossProduct its reps) - 1) (crossProduct its reps)"
  have q: "queue = setIndices (stabilizeLoop 0 sh)"
    by (simp add: assms(1) generateQuestionQueue_def stabilizeQueueNoImmediateRepeats_def
        sh_def Let_def)
  have len: "k + 1 < length sh" using assms(2) by (simp add: q)
  have "settled (stabilizeLoop 0 sh) k"
    using stabilizeLoop_settled [of 0 sh] len by simp
  then have "settled queue k"
    unfolding q by (rule settled_setIndices [rotated]) (use len in simp)
  with assms(3) show ?thesis unfolding settled_def by blast
qed

theorem initial_queue_repeats_only_in_tail_witness:
  "4 + 1 < length (generateQuestionQueue (\<lambda>i. i) itemsABC 2)
   \<and> qid (generateQuestionQueue (\<lambda>i. i) itemsABC 2 ! 4)
       = qid (generateQuestionQueue (\<lambda>i. i) itemsABC 2 ! (4 + 1))
   \<and> qid (generateQuestionQueue (\<lambda>i. i) itemsABC 2 ! 5)
       = qid (generateQuestionQueue (\<lambda>i. i) itemsABC 2 ! 4)"
proof -
  have l: "4 + 1 < length (generateQuestionQueue (\<lambda>i. i) itemsABC 2)"
    by (simp add: itemsABC_def)
  have e: "qid (generateQuestionQueue (\<lambda>i. i) itemsABC 2 ! 4)
       = qid (generateQuestionQueue (\<lambda>i. i) itemsABC 2 ! (4 + 1))"
    by code_simp
  have m: "(4::nat) < 5 \<and> 5 < length (generateQuestionQueue (\<lambda>i. i) itemsABC 2)"
    by (simp add: itemsABC_def)
  from initial_queue_repeats_only_in_tail [OF refl l e] m
  have "qid (generateQuestionQueue (\<lambda>i. i) itemsABC 2 ! 5)
       = qid (generateQuestionQueue (\<lambda>i. i) itemsABC 2 ! 4)"
    by blast
  then show ?thesis using l e by blast
qed

text \<open>C3 as stated fails: three items of distinct identity asked twice each, with the
  shuffle leaving every entry in place, give a queue whose last two entries share an
  identity.\<close>

theorem initial_queue_counterexample:
  "distinct (map getQuestionItemId itemsABC)
   \<and> map qid (generateQuestionQueue (\<lambda>i. i) itemsABC 2)
       = [''A'', ''B'', ''A'', ''B'', ''C'', ''C'']
   \<and> qid (generateQuestionQueue (\<lambda>i. i) itemsABC 2 ! 4)
       = qid (generateQuestionQueue (\<lambda>i. i) itemsABC 2 ! 5)"
  by code_simp

subsection \<open>The next question\<close>

lemma ensureNext_same_identity:
  "Suc a < length q \<Longrightarrow> qid (q ! a) = qid (q ! Suc a) \<Longrightarrow>
   ensureNextQuestionIsDifferent q a =
     (case findSwapIndex (qid (q ! a)) (drop (Suc (Suc a)) q) (Suc (Suc a)) of
        None \<Rightarrow> q | Some j \<Rightarrow> swap q (Suc a) j)"
  by (simp add: ensureNextQuestionIsDifferent_def Let_def)

lemma ensureNext_settled:
  assumes "a < length q"
  shows "ensureNextQuestionIsDifferent q a ! a = q ! a
       \<and> settled (ensureNextQuestionIsDifferent q a) a"
proof (cases "Suc a < length q")
  case False
  then have same: "ensureNextQuestionIsDifferent q a = q"
    by (simp add: ensureNextQuestionIsDifferent_def)
  have "settled q a" unfolding settled_def using False by auto
  with same show ?thesis by simp
next
  case inrange: True
  show ?thesis
  proof (cases "qid (q ! a) = qid (q ! Suc a)")
    case False
    then have same: "ensureNextQuestionIsDifferent q a = q"
      by (simp add: ensureNextQuestionIsDifferent_def)
    have "settled q a" using False by (simp add: settled_def)
    with same show ?thesis by simp
  next
    case eq: True
    show ?thesis
    proof (cases "findSwapIndex (qid (q ! a)) (drop (Suc (Suc a)) q) (Suc (Suc a))")
      case None
      have same: "ensureNextQuestionIsDifferent q a = q"
        by (simp only: ensureNext_same_identity [OF inrange eq] None option.case)
      have "qid (q ! m) = qid (q ! a)" if "a < m" "m < length q" for m
      proof (cases "m = Suc a")
        case True
        with eq show ?thesis by simp
      next
        case False
        with that have "Suc (Suc a) \<le> m" by arith
        from findSwapIndex_drop_None [OF None this that(2)] show ?thesis .
      qed
      then have "settled q a" unfolding settled_def by blast
      with same show ?thesis by simp
    next
      case (Some j)
      note found = findSwapIndex_drop_Some [OF Some]
      have jl: "j < length q" and aj: "Suc (Suc a) \<le> j" using found by simp_all
      have sw: "ensureNextQuestionIsDifferent q a = swap q (Suc a) j"
        by (simp only: ensureNext_same_identity [OF inrange eq] Some option.case)
      have a0: "swap q (Suc a) j ! a = q ! a"
        and a1: "swap q (Suc a) j ! Suc a = q ! j"
        using aj inrange jl by (simp_all add: nth_swap)
      have "settled (swap q (Suc a) j) a"
        using found(3) by (simp add: settled_def a0 a1)
      then show ?thesis unfolding sw a0 by simp
    qed
  qed
qed

lemma requeue_keeps_answered:
  assumes "a < length q"
  shows "requeue cfg q a r ! a = q ! a \<and> a < length (requeue cfg q a r)"
proof (cases "length q < totalQuestions cfg * 3")
  case False
  then show ?thesis using assms by (simp add: requeue_def)
next
  case True
  have "splice q (a + off) x ! a = q ! a" if "0 < off" for off x
    using assms that by (simp add: splice_def nth_append)
  moreover have "0 < random_integer r lo hi" if "0 < lo" for lo hi
    using that by (simp add: random_integer_def)
  ultimately show ?thesis
    using True assms by (simp add: requeue_def Let_def length_requeue)
qed

lemma submit_next_settled:
  assumes cq: "currentQuestion s \<noteq> None" and cont: "\<not> endsGame cfg s e"
  shows "currentIndex (answerToCompletion cfg s e) = currentIndex s + 1
       \<and> questionQueue (answerToCompletion cfg s e) ! currentIndex s
           = questionQueue s ! currentIndex s
       \<and> settled (questionQueue (answerToCompletion cfg s e)) (currentIndex s)"
proof -
  have a: "currentIndex s < length (questionQueue s)"
    using cq by (simp add: currentQuestion_def split: if_splits)
  show ?thesis
  proof (cases "isCorrect e")
    case True
    have q: "questionQueue (answerToCompletion cfg s e)
        = ensureNextQuestionIsDifferent (questionQueue s) (currentIndex s)"
      using cq cont True by (auto simp: submit_queue submit_defs)
    show ?thesis
      unfolding q using ensureNext_settled [OF a] cont
      by (simp add: submit_currentIndex [OF cq])
  next
    case False
    have q: "questionQueue (answerToCompletion cfg s e)
        = ensureNextQuestionIsDifferent
            (requeue cfg (questionQueue s) (currentIndex s) (draw e)) (currentIndex s)"
      using cq cont False by (auto simp: submit_queue submit_defs)
    note rq = requeue_keeps_answered [OF a, of cfg "draw e"]
    show ?thesis
      unfolding q using ensureNext_settled [of "currentIndex s"
          "requeue cfg (questionQueue s) (currentIndex s) (draw e)"] rq cont
      by (simp add: submit_currentIndex [OF cq])
  qed
qed

text \<open>C4 (amended). After every answer to the current question on which the session
  continues, the answered entry is still at its position, \<open>currentIndex\<close> has advanced by
  one, and the entry now current (if there is one) differs in identity from the answered
  entry unless every entry of the queue after the answered one, a re-queued copy included,
  has the identity of the answered entry.\<close>

theorem next_question_differs_unless_none_left:
  assumes "activeGameRendered cfg s" and "currentQuestion s \<noteq> None"
    and "phase (dispatch cfg s e) = Playing" and "phase s = Playing"
    and "q' = questionQueue (dispatch cfg s e)" and "a = currentIndex s"
  shows "currentIndex (dispatch cfg s e) = a + 1
       \<and> qid (q' ! a) = qid (questionQueue s ! a)
       \<and> (qid (q' ! (a + 1)) \<noteq> qid (q' ! a)
          \<or> (\<forall>m. a < m \<and> m < length q' \<longrightarrow> qid (q' ! m) = qid (q' ! a)))"
proof -
  have d: "dispatch cfg s e = answerToCompletion cfg s e"
    using assms(1) by (simp add: dispatch_def)
  have cont: "\<not> endsGame cfg s e"
    using assms(3) by (auto simp: d submit_phase [OF assms(2)] split: if_splits)
  from submit_next_settled [OF assms(2) cont]
  show ?thesis
    unfolding assms(5,6) d settled_def by metis
qed

theorem next_question_differs_unless_none_left_witness:
  "activeGameRendered cfgAB (handleStart cfgAB (\<lambda>i. i) 1000 initialState)
   \<and> currentQuestion (handleStart cfgAB (\<lambda>i. i) 1000 initialState) \<noteq> None
   \<and> phase (dispatch cfgAB (handleStart cfgAB (\<lambda>i. i) 1000 initialState) (correctAt 1500))
       = Playing
   \<and> currentIndex (dispatch cfgAB (handleStart cfgAB (\<lambda>i. i) 1000 initialState)
        (correctAt 1500)) = 1
   \<and> map qid (questionQueue (dispatch cfgAB (handleStart cfgAB (\<lambda>i. i) 1000 initialState)
        (correctAt 1500))) = [''A'', ''B'']"
proof -
  define h where "h = handleStart cfgAB (\<lambda>i. i) 1000 initialState"
  have r: "activeGameRendered cfgAB h" unfolding h_def by code_simp
  have c: "currentQuestion h \<noteq> None" unfolding h_def by code_simp
  have p: "phase (dispatch cfgAB h (correctAt 1500)) = Playing" unfolding h_def by code_simp
  have p0: "phase h = Playing" unfolding h_def by code_simp
  have q: "map qid (questionQueue (dispatch cfgAB h (correctAt 1500))) = [''A'', ''B'']"
    unfolding h_def by code_simp
  have x: "currentIndex h = 0" unfolding h_def by code_simp
  from next_question_differs_unless_none_left [OF r c p p0 refl refl]
  show ?thesis unfolding h_def [symmetric] using r c p q x by simp
qed

text \<open>C4 as stated fails: with two items of distinct identity asked once each, a correct
  answer to the first and an incorrect answer to the second leave the session in the
  playing phase on a copy of the second.\<close>

theorem next_question_counterexample:
  "distinct (map getQuestionItemId (items cfgAB))
   \<and> map_option qid (currentQuestion
        (session cfgAB (\<lambda>i. i) 1000 initialState [correctAt 1500])) = Some ''B''
   \<and> phase (session cfgAB (\<lambda>i. i) 1000 initialState [correctAt 1500, wrongAt 1600]) = Playing
   \<and> map_option qid (currentQuestion
        (session cfgAB (\<lambda>i. i) 1000 initialState [correctAt 1500, wrongAt 1600])) = Some ''B''"
  by code_simp

end
